theory Spec2Isabelle
  imports Main "HOL-Library.Sublist"
begin

section \<open>Go strings as byte lists\<close>

text \<open>
  A Go string is a sequence of bytes, here a \<^typ>\<open>char list\<close>. Every pattern that
  \<^verbatim>\<open>hcl.go\<close> searches for is ASCII, so matching bytes is matching characters.
  A string literal of HOL cannot hold a backslash, so the three special characters
  used by the source get names.
\<close>

abbreviation NL :: string where "NL \<equiv> [CHR 0x0A]"
abbreviation DQ :: string where "DQ \<equiv> [CHR 0x22]"
abbreviation BS :: string where "BS \<equiv> [CHR 0x5C]"

text \<open>
  \<^verbatim>\<open>strings.Replace(s, old, new, -1)\<close>: scan from the left, replace every
  non-overlapping occurrence of \<open>old\<close>. For an empty \<open>old\<close> Go inserts \<open>new\<close> before
  every character and at the end; the source never passes an empty pattern.
\<close>

fun Replace :: "string \<Rightarrow> string \<Rightarrow> string \<Rightarrow> string" where
  "Replace [] old new = (if old = [] then new else [])"
| "Replace (c # cs) old new =
     (if old = [] then new @ c # Replace cs old new
      else if prefix old (c # cs) then new @ Replace (drop (length old) (c # cs)) old new
      else c # Replace cs old new)"

text \<open>
  \<^verbatim>\<open>strings.Split(s, sep)\<close>: the pieces between the non-overlapping occurrences of
  \<open>sep\<close>; a string without \<open>sep\<close> gives the one-element list \<open>[s]\<close>, the empty string
  included.
\<close>

fun Split :: "string \<Rightarrow> string \<Rightarrow> string list" where
  "Split [] sep = (if sep = [] then [] else [[]])"
| "Split (c # cs) sep =
     (if sep = [] then [c] # Split cs sep
      else if prefix sep (c # cs) then [] # Split (drop (length sep) (c # cs)) sep
      else (case Split cs sep of [] \<Rightarrow> [[c]] | l # ls \<Rightarrow> (c # l) # ls))"

text \<open>\<^verbatim>\<open>strings.Join(elems, sep)\<close>.\<close>

fun Join :: "string list \<Rightarrow> string \<Rightarrow> string" where
  "Join [] sep = []"
| "Join [l] sep = l"
| "Join (l # ls) sep = l @ sep @ Join ls sep"

text \<open>
  A slice expression \<^verbatim>\<open>xs[lo:hi]\<close> panics at run time unless
  \<open>0 \<le> lo \<le> hi \<le> len(xs)\<close>. The indices are Go \<^verbatim>\<open>int\<close>s: \<^verbatim>\<open>len(xs)-1\<close> is \<open>-1\<close>
  for an empty slice and \<open>0\<close> for a slice of length one.
\<close>

datatype panic = SliceBoundsOutOfRange int int

definition slice :: "'a list \<Rightarrow> int \<Rightarrow> int \<Rightarrow> panic + 'a list" where
  "slice xs lo hi =
     (if 0 \<le> lo \<and> lo \<le> hi \<and> hi \<le> int (length xs)
      then Inr (take (nat (hi - lo)) (drop (nat lo) xs))
      else Inl (SliceBoundsOutOfRange lo hi))"


section \<open>The syntax tree\<close>

text \<open>
  The node types of \<^verbatim>\<open>hcl/ast\<close> that \<^verbatim>\<open>visit\<close> distinguishes. A token keeps
  the two fields the sanitizer reads and writes. \<^verbatim>\<open>ObjectList.Items\<close> is a slice of
  \<^verbatim>\<open>*ObjectItem\<close> and \<^verbatim>\<open>ObjectType.List\<close> is an \<^verbatim>\<open>*ObjectList\<close>, so both hold
  items. \<open>Other\<close> is any value of another dynamic type (a comment group, \<^verbatim>\<open>nil\<close>),
  with the type name that \<^verbatim>\<open>%T\<close> prints. The trees are those the parser builds:
  no pointer inside them is nil.
\<close>

record Token =
  Type :: int
  Text :: string

datatype Node =
    File Node
  | ObjectList "ObjectItem list"
  | ObjectKey Token
  | ObjectItemNode ObjectItem
  | LiteralType Token
  | ListType "Node list"
  | ObjectType "ObjectItem list"
  | Other string
and ObjectItem =
    ObjectItem (Keys: "Token list") (Assign_Line: int) (Val: Node)

text \<open>What the functions print: the line for an unknown node, the dump of invalid HCL.\<close>

datatype event = UnknownType string | InvalidHCL string

text \<open>
  \<^verbatim>\<open>json.Unmarshal\<close> into a \<^verbatim>\<open>map[string]interface{}\<close> and \<^verbatim>\<open>json.MarshalIndent\<close>
  of that map with two spaces belong to Go's library; \<open>None\<close> is a returned error.
\<close>

record 'o encoding_json =
  Unmarshal :: "string \<Rightarrow> 'o option"
  MarshalIndent :: "'o \<Rightarrow> string option"


section \<open>The sanitizer\<close>

definition safeChars :: string where
  "safeChars = ''abcdefghijklmnopqrstuvwxyzABCDEFGHIJKLMNOPQRSTUVWXYZ0123456789-_''"

text \<open>
  The loop of lines 70 to 75. It ranges over runes; a byte above 0x7F decodes to a
  rune that is not in \<open>safeChars\<close>, so the test on bytes gives the same answer.
\<close>

fun safe_loop :: "string \<Rightarrow> bool" where
  "safe_loop [] = True"
| "safe_loop (c # cs) = (if c \<notin> set safeChars then False else safe_loop cs)"

text \<open>Lines 66 to 79, the body run for the key at index 0.\<close>

definition unquote :: "Token \<Rightarrow> panic + Token" where
  "unquote k =
     (let text = Text k in
      if text \<noteq> [] \<and> hd text = CHR 0x22 \<and> last text = CHR 0x22 then
        (case slice text 1 (int (length text) - 1) of
           Inl p \<Rightarrow> Inl p
         | Inr v \<Rightarrow> if safe_loop v then Inr (k\<lparr>Text := v\<rparr>) else Inr k)
      else Inr k)"

text \<open>The loop over \<^verbatim>\<open>o.Keys\<close> of lines 64 to 81; \<open>i\<close> is the index.\<close>

fun visitKeys :: "nat \<Rightarrow> Token list \<Rightarrow> panic + Token list" where
  "visitKeys i [] = Inr []"
| "visitKeys i (k # ks) =
     (case (if i = 0 then unquote k else Inr k) of
        Inl p \<Rightarrow> Inl p
      | Inr k' \<Rightarrow>
         (case visitKeys (i + 1) ks of Inl p \<Rightarrow> Inl p | Inr ks' \<Rightarrow> Inr (k' # ks')))"

text \<open>
  Lines 84 to 110, the heredoc branch for a literal value. The two slices of lines 85
  and 86 cannot fail after the prefix test (the text has at least three characters);
  the slice of line 94 can. \<^verbatim>\<open>lines[0]\<close> and \<^verbatim>\<open>lines[len(lines)-1]\<close> are read only
  after that slice, when \<open>lines\<close> has two elements or more.
\<close>

definition heredoc :: "'o encoding_json \<Rightarrow> Token \<Rightarrow> panic + Token" where
  "heredoc J t =
     (if prefix (DQ @ ''<<'') (Text t) then
        (let text = drop 1 (Text t);
             text = take (length text - 1) text;
             text = Replace text (BS @ ''n'') NL;
             text = Replace text (BS @ ''t'') [];
             t = t\<lparr>Text := text, Type := 10\<rparr>;
             lines = Split text NL
         in case slice lines 1 (int (length lines) - 1) of
              Inl p \<Rightarrow> Inl p
            | Inr inner \<Rightarrow>
               (let jsonTest = Join inner NL;
                    jsonTest = Replace jsonTest (BS @ DQ) DQ
                in case Unmarshal J jsonTest of
                     None \<Rightarrow> Inr t
                   | Some tmp \<Rightarrow>
                      (case MarshalIndent J tmp of
                         None \<Rightarrow> Inr t
                       | Some dataJsonBytes \<Rightarrow>
                          (let jsonData = Split dataJsonBytes NL;
                               jsonData = [hd lines] @ jsonData;
                               jsonData = jsonData @ [last lines]
                           in Inr (t\<lparr>Text := Join jsonData NL\<rparr>)))))
      else Inr t)"

text \<open>
  \<^verbatim>\<open>visit\<close> and \<^verbatim>\<open>visitObjectItem\<close>. The Go code mutates the tree in place; the
  model returns the new tree together with what was printed, or the panic.
\<close>

fun visit :: "'o encoding_json \<Rightarrow> Node \<Rightarrow> event list \<Rightarrow> panic + Node \<times> event list"
and visitObjectItem ::
  "'o encoding_json \<Rightarrow> ObjectItem \<Rightarrow> event list \<Rightarrow> panic + ObjectItem \<times> event list"
and visitItems ::
  "'o encoding_json \<Rightarrow> ObjectItem list \<Rightarrow> event list \<Rightarrow> panic + ObjectItem list \<times> event list"
where
  "visit J (File n) out =
     (case visit J n out of Inl p \<Rightarrow> Inl p | Inr (n', out') \<Rightarrow> Inr (File n', out'))"
| "visit J (ObjectList items) out =
     (case visitItems J items out of
        Inl p \<Rightarrow> Inl p
      | Inr (items', out') \<Rightarrow> Inr (ObjectList items', out'))"
| "visit J (ObjectKey k) out = Inr (ObjectKey k, out)"
| "visit J (ObjectItemNode item) out =
     (case visitObjectItem J item out of
        Inl p \<Rightarrow> Inl p
      | Inr (item', out') \<Rightarrow> Inr (ObjectItemNode item', out'))"
| "visit J (LiteralType t) out = Inr (LiteralType t, out)"
| "visit J (ListType l) out = Inr (ListType l, out)"
| "visit J (ObjectType items) out =
     (case visitItems J items out of
        Inl p \<Rightarrow> Inl p
      | Inr (items', out') \<Rightarrow> Inr (ObjectType items', out'))"
| "visit J (Other tname) out = Inr (Other tname, out @ [UnknownType tname])"
| "visitObjectItem J (ObjectItem keys assign val) out =
     (case visitKeys 0 keys of
        Inl p \<Rightarrow> Inl p
      | Inr keys' \<Rightarrow>
         (case val of
            LiteralType t \<Rightarrow>
              (case heredoc J t of
                 Inl p \<Rightarrow> Inl p
               | Inr t' \<Rightarrow>
                  (case visit J (LiteralType t') out of
                     Inl p \<Rightarrow> Inl p
                   | Inr (val', out') \<Rightarrow> Inr (ObjectItem keys' 1 val', out')))
          | _ \<Rightarrow>
              (case visit J val out of
                 Inl p \<Rightarrow> Inl p
               | Inr (val', out') \<Rightarrow> Inr (ObjectItem keys' 1 val', out'))))"
| "visitItems J [] out = Inr ([], out)"
| "visitItems J (i # is) out =
     (case visitObjectItem J i out of
        Inl p \<Rightarrow> Inl p
      | Inr (i', out') \<Rightarrow>
         (case visitItems J is out' of
            Inl p \<Rightarrow> Inl p
          | Inr (is', out'') \<Rightarrow> Inr (i' # is', out'')))"


section \<open>The printer\<close>

datatype error =
    DuplicateResource string string
  | MarshallingError string
  | ParsingError string
  | WritingError string
  | FormattingError string

text \<open>The messages of the five \<^verbatim>\<open>fmt.Errorf\<close> calls.\<close>

fun Error :: "error \<Rightarrow> string" where
  "Error (DuplicateResource ty name) = ''duplicate resource found: '' @ ty @ ''.'' @ name"
| "Error (MarshallingError e) = ''error marshalling terraform data to json: '' @ e"
| "Error (ParsingError e) = ''error parsing terraform json: '' @ e"
| "Error (WritingError e) = ''error writing HCL: '' @ e"
| "Error (FormattingError e) = ''error formatting HCL: '' @ e"

text \<open>Lines 131 to 135 of \<^verbatim>\<open>hclPrint\<close>.\<close>

definition remove_extra_whitespace :: "string \<Rightarrow> string" where
  "remove_extra_whitespace s =
     (let s = Replace s (NL @ NL) NL;
          s = Replace s (''}'' @ NL @ ''resource'') (''}'' @ NL @ NL @ ''resource'')
      in s)"

text \<open>Lines 137 to 144 of \<^verbatim>\<open>hclPrint\<close>.\<close>

definition unescape :: "string \<Rightarrow> string" where
  "unescape s =
     (let s = Replace s (''('' @ BS @ DQ) (''('' @ DQ);
          s = Replace s (BS @ DQ @ '')'') (DQ @ '')'');
          s = Replace s (BS @ ''u003c'') ''<'';
          s = Replace s (BS @ ''u003e'') ''>''
      in s)"

text \<open>
  The printer and the formatter of \<^verbatim>\<open>hcl/printer\<close> and the parser of
  \<^verbatim>\<open>hcl/json/parser\<close> are libraries; \<open>Inl\<close> carries the text of a returned error.
\<close>

record hcl_printer =
  Fprint :: "Node \<Rightarrow> string + string"
  Format :: "string \<Rightarrow> string + string"

definition hclPrint ::
  "'o encoding_json \<Rightarrow> hcl_printer \<Rightarrow> Node \<Rightarrow> event list
     \<Rightarrow> panic + (error + string) \<times> event list" where
  "hclPrint J P node out =
     (case visit J node out of
        Inl p \<Rightarrow> Inl p
      | Inr (node', out') \<Rightarrow>
         (case Fprint P node' of
            Inl err \<Rightarrow> Inr (Inl (WritingError err), out')
          | Inr s \<Rightarrow>
             (let s = remove_extra_whitespace s;
                  s = unescape s
              in case Format P s of
                   Inl err \<Rightarrow> Inr (Inl (FormattingError err), out' @ [InvalidHCL s])
                 | Inr formatted \<Rightarrow> Inr (Inr formatted, out'))))"


section \<open>Names and the document\<close>

definition TfSanitize :: "string \<Rightarrow> string" where
  "TfSanitize name =
     (let name = Replace name ''*.'' [];
          name = Replace name ''.'' ''-'';
          name = Replace name ''/'' ''--''
      in name)"

text \<open>
  Modelled from the spec: the declaration of \<^verbatim>\<open>TerraformResource\<close> is not in
  \<^verbatim>\<open>hcl.go\<close>. The spec gives a resource entry the strings \<open>ResourceType\<close> and
  \<open>ResourceName\<close> and an \<open>Item\<close> that is a tree of JSON-serializable values, null
  among them. \<^verbatim>\<open>HclPrint\<close> stores the item in a \<^verbatim>\<open>map[string]interface{}\<close>, so an
  item is an interface value: \<open>None\<close> is \<^verbatim>\<open>nil\<close> (JSON null), \<open>Some v\<close> holds a value.
\<close>

record 'v TerraformResource =
  ResourceType :: string
  ResourceName :: string
  Item :: "'v option"

type_synonym 'v resources_by_type = "string \<rightharpoonup> (string \<rightharpoonup> 'v option)"

text \<open>
  \<^verbatim>\<open>r[tfName] != nil\<close> for the inner map of a type: reading a missing key gives
  \<^verbatim>\<open>nil\<close>, and so does reading a key that holds \<^verbatim>\<open>nil\<close>.
\<close>

definition not_nil :: "(string \<rightharpoonup> 'v option) \<Rightarrow> string \<Rightarrow> bool" where
  "not_nil r tfName = (case r tfName of None \<Rightarrow> False | Some None \<Rightarrow> False | Some (Some v) \<Rightarrow> True)"

text \<open>The loop of lines 171 to 185.\<close>

fun group_resources ::
  "'v TerraformResource list \<Rightarrow> 'v resources_by_type \<Rightarrow> error + 'v resources_by_type" where
  "group_resources [] resourcesByType = Inr resourcesByType"
| "group_resources (res # rest) resourcesByType =
     (let r = (case resourcesByType (ResourceType res) of None \<Rightarrow> Map.empty | Some r \<Rightarrow> r);
          tfName = TfSanitize (ResourceName res)
      in if not_nil r tfName then Inl (DuplicateResource (ResourceType res) tfName)
         else group_resources rest
                (resourcesByType(ResourceType res \<mapsto> r(tfName \<mapsto> Item res))))"

record ('v, 'p) Document =
  resource :: "'v resources_by_type"
  provider :: 'p

text \<open>Line 194: what \<^verbatim>\<open>HclPrint\<close> does to the JSON text before it is parsed.\<close>

definition unescape_json :: "string \<Rightarrow> string" where
  "unescape_json dataJson = Replace dataJson (BS @ ''u003c'') ''<''"

record ('v, 'p) hcl_json =
  MarshalDocument :: "('v, 'p) Document \<Rightarrow> string + string"
  Parse :: "string \<Rightarrow> string + Node"

definition HclPrint ::
  "'o encoding_json \<Rightarrow> hcl_printer \<Rightarrow> ('v, 'p) hcl_json \<Rightarrow> 'v TerraformResource list \<Rightarrow> 'p
     \<Rightarrow> event list \<Rightarrow> panic + (error + string) \<times> event list" where
  "HclPrint J P L resources prov out =
     (case group_resources resources Map.empty of
        Inl err \<Rightarrow> Inr (Inl err, out)
      | Inr resourcesByType \<Rightarrow>
         (let data = \<lparr>resource = resourcesByType, provider = prov\<rparr>
          in case MarshalDocument L data of
               Inl err \<Rightarrow> Inr (Inl (MarshallingError err), out)
             | Inr dataJson \<Rightarrow>
                (case Parse L (unescape_json dataJson) of
                   Inl err \<Rightarrow> Inr (Inl (ParsingError err), out)
                 | Inr nodes \<Rightarrow> hclPrint J P nodes out)))"


section \<open>Notions used to state the properties\<close>

text \<open>
  The slot of an entry is its type with its sanitized name. A slot is occupied in the
  grouped map when the test of line 180 finds it so. \<open>store\<close> is the assignment of
  line 184.
\<close>

definition slot :: "'v TerraformResource \<Rightarrow> string \<times> string" where
  "slot res = (ResourceType res, TfSanitize (ResourceName res))"

definition occupied :: "'v resources_by_type \<Rightarrow> string \<times> string \<Rightarrow> bool" where
  "occupied m k = (case m (fst k) of None \<Rightarrow> False | Some r \<Rightarrow> not_nil r (snd k))"

definition store :: "'v resources_by_type \<Rightarrow> 'v TerraformResource \<Rightarrow> 'v resources_by_type" where
  "store m res =
     m(ResourceType res \<mapsto>
        (case m (ResourceType res) of None \<Rightarrow> Map.empty | Some r \<Rightarrow> r)
          (TfSanitize (ResourceName res) \<mapsto> Item res))"

text \<open>
  The trees on which no slice expression of the sanitizer is out of range: the first
  key of an item is not the one-character text \<open>"\<close>, and a literal value that starts
  with \<open>"<<\<close> has, between its quotes, the escape sequence of a newline or a newline.
  As \<open>visit\<close> does, the predicate looks at the values of items and not into lists.
\<close>

definition key_in_range :: "Token list \<Rightarrow> bool" where
  "key_in_range keys = (case keys of [] \<Rightarrow> True | k # ks \<Rightarrow> Text k \<noteq> DQ)"

definition literal_in_range :: "Token \<Rightarrow> bool" where
  "literal_in_range t =
     (if prefix (DQ @ ''<<'') (Text t)
      then sublist (BS @ ''n'') (take (length (Text t) - 2) (drop 1 (Text t)))
           \<or> CHR 0x0A \<in> set (take (length (Text t) - 2) (drop 1 (Text t)))
      else True)"

fun in_range :: "Node \<Rightarrow> bool"
and item_in_range :: "ObjectItem \<Rightarrow> bool"
and items_in_range :: "ObjectItem list \<Rightarrow> bool"
where
  "in_range (File n) = in_range n"
| "in_range (ObjectList items) = items_in_range items"
| "in_range (ObjectKey k) = True"
| "in_range (ObjectItemNode item) = item_in_range item"
| "in_range (LiteralType t) = True"
| "in_range (ListType l) = True"
| "in_range (ObjectType items) = items_in_range items"
| "in_range (Other tname) = True"
| "item_in_range (ObjectItem keys assign val) =
     (key_in_range keys
      \<and> (case val of LiteralType t \<Rightarrow> literal_in_range t | _ \<Rightarrow> in_range val))"
| "items_in_range [] = True"
| "items_in_range (i # is) = (item_in_range i \<and> items_in_range is)"

text \<open>
  Two texts have the same lines up to blank lines: the same first line, and after it the
  same lines that are not empty, in the same order.
\<close>

definition same_lines :: "string \<Rightarrow> string \<Rightarrow> bool" where
  "same_lines x y \<longleftrightarrow>
     hd (Split x NL) = hd (Split y NL)
     \<and> filter (\<lambda>l. l \<noteq> []) (tl (Split x NL)) = filter (\<lambda>l. l \<noteq> []) (tl (Split y NL))"

text \<open>The two patterns of line 135.\<close>

abbreviation boundary :: string where "boundary \<equiv> ''}'' @ NL @ ''resource''"
abbreviation separated :: string where "separated \<equiv> ''}'' @ NL @ NL @ ''resource''"


section \<open>Facts about \<open>Replace\<close>\<close>

text \<open>A pattern holding a character that the string lacks finds no match.\<close>

lemma Replace_absent:
  "x \<in> set old \<Longrightarrow> x \<notin> set s \<Longrightarrow> Replace s old new = s"
proof (induction s)
  case Nil
  then show ?case by auto
next
  case (Cons c cs)
  from Cons.prems have ne: "old \<noteq> []" by auto
  have "\<not> prefix old (c # cs)"
  proof
    assume "prefix old (c # cs)"
    then have "set old \<subseteq> set (c # cs)" by (rule set_mono_prefix)
    with Cons.prems show False by auto
  qed
  with ne Cons show ?case by simp
qed

text \<open>Replacing adds no character beyond those of the replacement.\<close>

lemma set_Replace_subset: "set (Replace s old new) \<subseteq> set s \<union> set new"
proof (induction s old new rule: Replace.induct)
  case (1 old new)
  then show ?case by auto
next
  case (2 c cs old new)
  have "set (drop (length old) (c # cs)) \<subseteq> set (c # cs)" by (rule set_drop_subset)
  with 2 show ?case by (auto simp del: drop_Suc_Cons)
qed

text \<open>Replacing a one-character pattern removes that character.\<close>

lemma Replace_char_removed: "c \<notin> set new \<Longrightarrow> c \<notin> set (Replace s [c] new)"
  by (induction s) auto

text \<open>
  What the result starts with, the input starts with, as long as the replacement's first
  character is not part of it.
\<close>

lemma prefix_Replace:
  "old \<noteq> [] \<Longrightarrow> new \<noteq> [] \<Longrightarrow> hd new \<notin> set p
     \<Longrightarrow> prefix p (Replace s old new) \<Longrightarrow> prefix p s"
proof (induction s old new arbitrary: p rule: Replace.induct)
  case (1 old new)
  then show ?case by simp
next
  case (2 c cs old new)
  show ?case
  proof (cases "prefix old (c # cs)")
    case True
    with 2 have "prefix p (new @ Replace (drop (length old) (c # cs)) old new)"
      by simp
    moreover obtain b bs where new: "new = b # bs" using 2(5) by (cases new) auto
    ultimately have "p = []" using 2(6) by (cases p) (auto simp: new)
    then show ?thesis by simp
  next
    case False
    with 2 have pre: "prefix p (c # Replace cs old new)" by simp
    show ?thesis
    proof (cases p)
      case Nil
      then show ?thesis by simp
    next
      case (Cons x xs)
      with pre have x: "x = c" and xs: "prefix xs (Replace cs old new)" by auto
      have "hd new \<notin> set xs" using 2(6) Cons by auto
      with 2(3) [OF 2(4) False 2(4) 2(5) _ xs] have "prefix xs cs" by simp
      with x Cons show ?thesis by simp
    qed
  qed
qed

text \<open>
  Replacing by a single character \<open>b\<close> creates no occurrence of a string without \<open>b\<close>.
\<close>

lemma sublist_Replace:
  "old \<noteq> [] \<Longrightarrow> b \<notin> set p \<Longrightarrow> sublist p (Replace s old [b]) \<Longrightarrow> sublist p s"
proof (induction s old "[b]" rule: Replace.induct)
  case (1 old)
  then show ?case by simp
next
  case (2 c cs old)
  show ?case
  proof (cases p)
    case Nil
    then show ?thesis by simp
  next
    case (Cons x xs)
    show ?thesis
    proof (cases "prefix old (c # cs)")
      case True
      with 2 have "sublist p (b # Replace (drop (length old) (c # cs)) old [b])"
        by simp
      with Cons 2(5) have "sublist p (Replace (drop (length old) (c # cs)) old [b])"
        by (auto simp: sublist_Cons_right)
      with 2(2) [OF 2(4) True 2(4) 2(5)] have "sublist p (drop (length old) (c # cs))" .
      moreover have "sublist (drop (length old) (c # cs)) (c # cs)" by (rule sublist_drop)
      ultimately show ?thesis by (rule sublist_order.order.trans)
    next
      case False
      with 2 have "sublist p (c # Replace cs old [b])" by simp
      then consider "prefix p (Replace (c # cs) old [b])" | "sublist p (Replace cs old [b])"
        using False 2(4) by (auto simp: sublist_Cons_right)
      then show ?thesis
      proof cases
        case 1
        have "prefix p (c # cs)"
          by (rule prefix_Replace [OF 2(4) _ _ 1]) (use 2(5) in auto)
        then show ?thesis by (rule prefix_imp_sublist)
      next
        case 2
        with "2.hyps"(3) [OF "2.prems"(1) False "2.prems"(1) "2.prems"(2)] have "sublist p cs" .
        then show ?thesis by (simp add: sublist_Cons_right)
      qed
    qed
  qed
qed

text \<open>After the replacement by a character outside the pattern, the pattern is gone.\<close>

lemma no_sublist_Replace:
  "old \<noteq> [] \<Longrightarrow> b \<notin> set old \<Longrightarrow> \<not> sublist old (Replace s old [b])"
proof (induction s old "[b]" rule: Replace.induct)
  case (1 old)
  then show ?case by simp
next
  case (2 c cs old)
  obtain x xs where old: "old = x # xs" using 2(4) by (cases old) auto
  show ?case
  proof (cases "prefix old (c # cs)")
    case True
    have "\<not> sublist old (Replace (drop (length old) (c # cs)) old [b])"
      by (rule 2(2) [OF 2(4) True 2(4) 2(5)])
    moreover have "\<not> prefix old (b # Replace (drop (length old) (c # cs)) old [b])"
      using 2(5) by (auto simp: old)
    ultimately show ?thesis
      using True 2(4) by (simp add: sublist_Cons_right)
  next
    case False
    have ih: "\<not> sublist old (Replace cs old [b])"
      by (rule 2(3) [OF 2(4) False 2(4) 2(5)])
    have "\<not> prefix old (c # Replace cs old [b])"
    proof
      assume "prefix old (c # Replace cs old [b])"
      with False 2(4) have "prefix old (Replace (c # cs) old [b])" by simp
      then have "prefix old (c # cs)"
        by (rule prefix_Replace [OF 2(4), rotated 2]) (use 2(5) in auto)
      with False show False by simp
    qed
    with ih show ?thesis
      using False 2(4) by (simp add: sublist_Cons_right)
  qed
qed

text \<open>One step of the scan, with and without a match at the front.\<close>

lemma Replace_match:
  "old \<noteq> [] \<Longrightarrow> Replace (old @ rest) old new = new @ Replace rest old new"
  by (cases old) auto

lemma Replace_no_match:
  "old \<noteq> [] \<Longrightarrow> \<not> prefix old (c # cs) \<Longrightarrow> Replace (c # cs) old new = c # Replace cs old new"
  by simp

text \<open>
  Replacing a pattern by a character that the text lacks is undone by replacing that
  character by the pattern.
\<close>

lemma Replace_undone:
  "old \<noteq> [] \<Longrightarrow> c \<notin> set s \<Longrightarrow> Replace (Replace s old [c]) [c] old = s"
proof (induction s old "[c]" rule: Replace.induct)
  case (1 old)
  then show ?case by simp
next
  case (2 x xs old)
  show ?case
  proof (cases "prefix old (x # xs)")
    case True
    then obtain rest where xs: "x # xs = old @ rest" by (auto simp: prefix_def)
    then have d: "drop (length old) (x # xs) = rest" by simp
    from xs 2(5) have "c \<notin> set rest" by (metis Un_iff set_append)
    with 2(2) [OF 2(4) True 2(4)] d have ih: "Replace (Replace rest old [c]) [c] old = rest"
      by simp
    have "Replace (x # xs) old [c] = [c] @ Replace rest old [c]"
      unfolding xs using 2(4) by (rule Replace_match)
    then have "Replace (Replace (x # xs) old [c]) [c] old
                 = Replace ([c] @ Replace rest old [c]) [c] old" by simp
    also have "\<dots> = old @ Replace (Replace rest old [c]) [c] old"
      by (rule Replace_match) simp
    finally show ?thesis using ih xs by simp
  next
    case False
    from 2(5) have x: "x \<noteq> c" and "c \<notin> set xs" by auto
    with 2(3) [OF 2(4) False 2(4)] have ih: "Replace (Replace xs old [c]) [c] old = xs" by simp
    have "Replace (x # xs) old [c] = x # Replace xs old [c]"
      using 2(4) False by (rule Replace_no_match)
    then show ?thesis using x ih by simp
  qed
qed

text \<open>Which characters survive, which are inserted, and where a character comes from.\<close>

lemma Replace_keeps_char: "x \<notin> set old \<Longrightarrow> x \<in> set s \<Longrightarrow> x \<in> set (Replace s old new)"
proof (induction s old new rule: Replace.induct)
  case (1 old new)
  then show ?case by simp
next
  case (2 c cs old new)
  show ?case
  proof (cases "old \<noteq> [] \<and> prefix old (c # cs)")
    case True
    then obtain rest where cs: "c # cs = old @ rest" by (auto simp: prefix_def)
    then have d: "drop (length old) (c # cs) = rest" by simp
    from cs 2(4,5) have "x \<in> set rest" by (metis Un_iff set_append)
    with 2(2) True 2(4) d have "x \<in> set (Replace rest old new)" by simp
    then show ?thesis using True d by simp
  next
    case False
    with 2 show ?thesis by auto
  qed
qed

lemma Replace_inserts:
  "old \<noteq> [] \<Longrightarrow> sublist old s \<Longrightarrow> set new \<subseteq> set (Replace s old new)"
proof (induction s old new rule: Replace.induct)
  case (1 old new)
  then show ?case by simp
next
  case (2 c cs old new)
  show ?case
  proof (cases "prefix old (c # cs)")
    case True
    with 2(4) show ?thesis by simp
  next
    case False
    with 2(5) have "sublist old cs" by (simp add: sublist_Cons_right)
    with 2(3) [OF 2(4) False 2(4)] have "set new \<subseteq> set (Replace cs old new)" .
    with False 2(4) show ?thesis by auto
  qed
qed

lemma char_of_Replace:
  "x \<in> set (Replace s old new) \<Longrightarrow> x \<in> set s \<or> (sublist old s \<and> x \<in> set new)"
proof (induction s old new rule: Replace.induct)
  case (1 old new)
  then show ?case by (auto split: if_splits)
next
  case (2 c cs old new)
  show ?case
  proof (cases "old = []")
    case True
    with 2 show ?thesis by auto
  next
    case ne: False
    show ?thesis
    proof (cases "prefix old (c # cs)")
      case True
      with ne 2(4) have "x \<in> set new \<or> x \<in> set (Replace (drop (length old) (c # cs)) old new)"
        by simp
      then show ?thesis
      proof
        assume "x \<in> set new"
        with True show ?thesis by auto
      next
        assume "x \<in> set (Replace (drop (length old) (c # cs)) old new)"
        with 2(2) [OF ne True] consider "x \<in> set (drop (length old) (c # cs))" | "x \<in> set new"
          by blast
        then show ?thesis
        proof cases
          case 1
          then have "x \<in> set (c # cs)" by (rule in_set_dropD)
          then show ?thesis by simp
        next
          case 2
          with True show ?thesis by auto
        qed
      qed
    next
      case False
      with ne 2(4) have "x = c \<or> x \<in> set (Replace cs old new)" by simp
      with 2(3) [OF ne False] show ?thesis by (auto simp: sublist_Cons_right)
    qed
  qed
qed


section \<open>Facts about \<open>Split\<close> and \<open>Join\<close>\<close>

lemma Split_not_Nil: "sep \<noteq> [] \<Longrightarrow> Split s sep \<noteq> []"
  by (induction s sep rule: Split.induct) (auto split: list.splits)

lemma length_Split_NL: "length (Split s NL) = Suc (length (filter (\<lambda>c. c = CHR 0x0A) s))"
proof (induction s)
  case Nil
  then show ?case by simp
next
  case (Cons c cs)
  have "Split cs NL \<noteq> []" by (rule Split_not_Nil) simp
  then obtain l ls where "Split cs NL = l # ls" by (cases "Split cs NL") auto
  with Cons show ?case by auto
qed

lemma Split_two_lines: "CHR 0x0A \<in> set s \<Longrightarrow> 2 \<le> length (Split s NL)"
proof -
  assume "CHR 0x0A \<in> set s"
  then have "CHR 0x0A \<in> set (filter (\<lambda>c. c = CHR 0x0A) s)" by simp
  then obtain y ys where "filter (\<lambda>c. c = CHR 0x0A) s = y # ys"
    by (cases "filter (\<lambda>c. c = CHR 0x0A) s") auto
  then show ?thesis by (simp add: length_Split_NL)
qed

lemma Split_one_line: "CHR 0x0A \<notin> set s \<Longrightarrow> length (Split s NL) = 1"
proof -
  assume "CHR 0x0A \<notin> set s"
  then have "filter (\<lambda>c. c = CHR 0x0A) s = []" by (auto simp: filter_empty_conv)
  then show ?thesis by (simp add: length_Split_NL)
qed

lemma Join_Cons: "ls \<noteq> [] \<Longrightarrow> Join (l # ls) sep = l @ sep @ Join ls sep"
  by (cases ls) auto

lemma Join_snoc: "ls \<noteq> [] \<Longrightarrow> Join (ls @ [l]) sep = Join ls sep @ sep @ l"
  by (induction ls sep rule: Join.induct) auto

lemma Join_Split: "sep \<noteq> [] \<Longrightarrow> Join (Split s sep) sep = s"
proof (induction s sep rule: Split.induct)
  case (1 sep)
  then show ?case by simp
next
  case (2 c cs sep)
  show ?case
  proof (cases "prefix sep (c # cs)")
    case True
    then obtain rest where cs: "c # cs = sep @ rest" by (auto simp: prefix_def)
    then have d: "drop (length sep) (c # cs) = rest" by simp
    have ne: "Split rest sep \<noteq> []" using 2(4) by (rule Split_not_Nil)
    from 2(2) [OF 2(4) True 2(4)] d have "Join (Split rest sep) sep = rest" by simp
    moreover have "Split (c # cs) sep = [] # Split rest sep" using True 2(4) d by simp
    ultimately show ?thesis using cs ne by (simp add: Join_Cons del: Split.simps)
  next
    case False
    have ne: "Split cs sep \<noteq> []" using 2(4) by (rule Split_not_Nil)
    then obtain l ls where s: "Split cs sep = l # ls" by (cases "Split cs sep") auto
    from 2(3) [OF 2(4) False 2(4)] s have j: "Join (l # ls) sep = cs" by simp
    have "Split (c # cs) sep = (c # l) # ls" using False 2(4) s by simp
    moreover have "Join ((c # l) # ls) sep = c # Join (l # ls) sep" by (cases ls) auto
    ultimately show ?thesis using j by simp
  qed
qed


text \<open>Replacing is splitting at the pattern and joining the pieces with the replacement.\<close>

lemma Replace_Join_Split: "old \<noteq> [] \<Longrightarrow> Replace s old new = Join (Split s old) new"
proof (induction s old new rule: Replace.induct)
  case (1 old new)
  then show ?case by simp
next
  case (2 c cs old new)
  show ?case
  proof (cases "prefix old (c # cs)")
    case True
    then obtain rest where cs: "c # cs = old @ rest" by (auto simp: prefix_def)
    then have d: "drop (length old) (c # cs) = rest" by simp
    have ne: "Split rest old \<noteq> []" using 2(4) by (rule Split_not_Nil)
    from 2(2) [OF 2(4) True 2(4)] d have ih: "Replace rest old new = Join (Split rest old) new"
      by simp
    have "Split (c # cs) old = [] # Split rest old" using True 2(4) d by simp
    moreover have "Replace (c # cs) old new = new @ Replace rest old new"
      unfolding cs using 2(4) by (rule Replace_match)
    ultimately show ?thesis using ih ne by (simp add: Join_Cons del: Split.simps Replace.simps)
  next
    case False
    have ne: "Split cs old \<noteq> []" using 2(4) by (rule Split_not_Nil)
    then obtain l ls where s: "Split cs old = l # ls" by (cases "Split cs old") auto
    from 2(3) [OF 2(4) False 2(4)] s have ih: "Replace cs old new = Join (l # ls) new" by simp
    have "Split (c # cs) old = (c # l) # ls" using False 2(4) s by simp
    moreover have "Join ((c # l) # ls) new = c # Join (l # ls) new" by (cases ls) auto
    moreover have "Replace (c # cs) old new = c # Replace cs old new"
      using 2(4) False by (rule Replace_no_match)
    ultimately show ?thesis using ih by simp
  qed
qed


section \<open>Name sanitization\<close>

text \<open>
  Claim C6: \<open>TfSanitize\<close> is idempotent on every resource name, those with a dot or a
  slash included: sanitizing a sanitized name changes nothing.
\<close>

theorem TfSanitize_idempotent: "TfSanitize (TfSanitize name) = TfSanitize name"
proof -
  define a where "a = Replace name ''*.'' []"
  define b where "b = Replace a ''.'' ''-''"
  define d where "d = Replace b ''/'' ''--''"
  have d: "TfSanitize name = d"
    by (simp add: TfSanitize_def a_def b_def d_def)
  have "CHR ''.'' \<notin> set b"
    unfolding b_def by (rule Replace_char_removed) simp
  moreover have "set d \<subseteq> set b \<union> set ''--''"
    unfolding d_def by (rule set_Replace_subset)
  ultimately have dot: "CHR ''.'' \<notin> set d" by auto
  have slash: "CHR ''/'' \<notin> set d"
    unfolding d_def by (rule Replace_char_removed) simp
  have 1: "Replace d ''*.'' [] = d" by (rule Replace_absent [OF _ dot]) simp
  have 2: "Replace d ''.'' ''-'' = d" by (rule Replace_absent [OF _ dot]) simp
  have 3: "Replace d ''/'' ''--'' = d" by (rule Replace_absent [OF _ slash]) simp
  have "TfSanitize d = d" by (simp add: TfSanitize_def 1 2 3)
  with d show ?thesis by simp
qed

text \<open>
  Claim C9: \<open>TfSanitize\<close> is not injective. The names \<open>a.b\<close> and \<open>a-b\<close> both become
  \<open>a-b\<close>, the names \<open>a/b\<close> and \<open>a--b\<close> both become \<open>a--b\<close>, and two resources of one
  type with the names \<open>a.b\<close> and \<open>a-b\<close> make \<open>HclPrint\<close> return the duplicate-resource
  error.
\<close>

theorem TfSanitize_not_injective:
  "TfSanitize ''a.b'' = ''a-b'' \<and> TfSanitize ''a-b'' = ''a-b''
   \<and> TfSanitize ''a/b'' = ''a--b'' \<and> TfSanitize ''a--b'' = ''a--b''
   \<and> \<not> inj TfSanitize
   \<and> HclPrint J P L
        [\<lparr>ResourceType = ''aws_vpc'', ResourceName = ''a.b'', Item = Some x\<rparr>,
         \<lparr>ResourceType = ''aws_vpc'', ResourceName = ''a-b'', Item = Some y\<rparr>] prov out
       = Inr (Inl (DuplicateResource ''aws_vpc'' ''a-b''), out)"
proof -
  have 1: "TfSanitize ''a.b'' = ''a-b''" by (simp add: TfSanitize_def)
  have 2: "TfSanitize ''a-b'' = ''a-b''" by (simp add: TfSanitize_def)
  have 3: "TfSanitize ''a/b'' = ''a--b''" by (simp add: TfSanitize_def)
  have 4: "TfSanitize ''a--b'' = ''a--b''" by (simp add: TfSanitize_def)
  have 5: "\<not> inj TfSanitize"
  proof
    assume "inj TfSanitize"
    moreover have "TfSanitize ''a.b'' = TfSanitize ''a-b''" by (simp only: 1 2)
    ultimately have "''a.b'' = ''a-b''" by (rule injD)
    then show False by simp
  qed
  have 6: "HclPrint J P L
        [\<lparr>ResourceType = ''aws_vpc'', ResourceName = ''a.b'', Item = Some x\<rparr>,
         \<lparr>ResourceType = ''aws_vpc'', ResourceName = ''a-b'', Item = Some y\<rparr>] prov out
       = Inr (Inl (DuplicateResource ''aws_vpc'' ''a-b''), out)"
    by (simp add: HclPrint_def 1 2 not_nil_def)
  from 1 2 3 4 5 6 show ?thesis by blast
qed

section \<open>Grouping the resources\<close>

lemma group_resources_duplicate:
  "occupied m (slot res) \<Longrightarrow>
   group_resources (res # rest) m
     = Inl (DuplicateResource (ResourceType res) (TfSanitize (ResourceName res)))"
  by (auto simp: occupied_def slot_def not_nil_def split: option.splits)

lemma group_resources_store:
  "\<not> occupied m (slot res) \<Longrightarrow> group_resources (res # rest) m = group_resources rest (store m res)"
  by (auto simp: occupied_def slot_def store_def not_nil_def Let_def split: option.splits)

lemma occupied_store:
  "Item res \<noteq> None \<Longrightarrow> occupied (store m res) k \<longleftrightarrow> k = slot res \<or> occupied m k"
  by (cases k) (auto simp: occupied_def slot_def store_def not_nil_def split: option.splits)

text \<open>
  When the entries before \<open>d\<close> have items that are not nil and pairwise different
  slots, and \<open>d\<close> is the first entry whose slot was seen before, the loop stops at \<open>d\<close>
  with the duplicate-resource error for the slot of \<open>d\<close>.
\<close>

lemma group_resources_first_duplicate:
  assumes "\<forall>res \<in> set pre. Item res \<noteq> None"
    and "distinct (map slot pre)"
    and "\<forall>res \<in> set pre. \<not> occupied m (slot res)"
    and "slot d \<in> slot ` set pre \<or> occupied m (slot d)"
  shows "group_resources (pre @ d # post) m
           = Inl (DuplicateResource (ResourceType d) (TfSanitize (ResourceName d)))"
  using assms
proof (induction pre arbitrary: m)
  case Nil
  then show ?case by (simp add: group_resources_duplicate del: group_resources.simps)
next
  case (Cons a pre)
  from Cons.prems(3) have a: "\<not> occupied m (slot a)" by simp
  from Cons.prems(1) have item: "Item a \<noteq> None" by simp
  have "group_resources ((a # pre) @ d # post) m = group_resources (pre @ d # post) (store m a)"
    using a by (simp add: group_resources_store del: group_resources.simps)
  also have "\<dots> = Inl (DuplicateResource (ResourceType d) (TfSanitize (ResourceName d)))"
  proof (rule Cons.IH)
    show "\<forall>res\<in>set pre. Item res \<noteq> None" using Cons.prems(1) by simp
    show "distinct (map slot pre)" using Cons.prems(2) by simp
    show "\<forall>res\<in>set pre. \<not> occupied (store m a) (slot res)"
      using Cons.prems(2,3) by (auto simp: occupied_store [OF item] image_iff)
    show "slot d \<in> slot ` set pre \<or> occupied (store m a) (slot d)"
      using Cons.prems(4) by (auto simp: occupied_store [OF item])
  qed
  finally show ?case .
qed

lemma HclPrint_first_duplicate:
  assumes "\<forall>res \<in> set pre. Item res \<noteq> None"
    and "distinct (map slot pre)"
    and "slot d \<in> slot ` set pre"
  shows "HclPrint J P L (pre @ d # post) prov out
           = Inr (Inl (DuplicateResource (ResourceType d) (TfSanitize (ResourceName d))), out)"
proof -
  have "group_resources (pre @ d # post) Map.empty
           = Inl (DuplicateResource (ResourceType d) (TfSanitize (ResourceName d)))"
    using assms by (intro group_resources_first_duplicate) (auto simp: occupied_def)
  then show ?thesis by (simp add: HclPrint_def)
qed

text \<open>
  Claim C1 says that two entries with the same type and sanitized name always make
  \<open>HclPrint\<close> fail with the duplicate-resource error. Line 180 tests the slot against
  \<^verbatim>\<open>nil\<close>, so a slot that holds a nil item counts as free: for an entry with a nil
  item followed by an entry of the same type and name the loop ends without an error,
  the grouped map holds the second item alone, and \<open>HclPrint\<close> never returns the
  duplicate-resource error.
\<close>

theorem nil_item_duplicate_overwritten:
  "group_resources
     [\<lparr>ResourceType = ''aws_vpc'', ResourceName = ''main'', Item = None\<rparr>,
      \<lparr>ResourceType = ''aws_vpc'', ResourceName = ''main'', Item = Some ''10.0.0.0/16''\<rparr>]
     Map.empty
   = Inr [''aws_vpc'' \<mapsto> [''main'' \<mapsto> Some ''10.0.0.0/16'']]
   \<and> (\<forall>ty name out'.
        HclPrint J P L
          [\<lparr>ResourceType = ''aws_vpc'', ResourceName = ''main'', Item = None\<rparr>,
           \<lparr>ResourceType = ''aws_vpc'', ResourceName = ''main'', Item = Some ''10.0.0.0/16''\<rparr>]
          prov out
        \<noteq> Inr (Inl (DuplicateResource ty name), out'))"
proof -
  have g: "group_resources
     [\<lparr>ResourceType = ''aws_vpc'', ResourceName = ''main'', Item = None\<rparr>,
      \<lparr>ResourceType = ''aws_vpc'', ResourceName = ''main'', Item = Some ''10.0.0.0/16''\<rparr>]
     Map.empty
   = Inr [''aws_vpc'' \<mapsto> [''main'' \<mapsto> Some ''10.0.0.0/16'']]"
    by (simp add: TfSanitize_def not_nil_def)
  show ?thesis
    unfolding HclPrint_def g
    by (auto simp: g hclPrint_def Let_def split: sum.splits prod.splits)
qed



section \<open>Unquoting the first key\<close>

lemma safe_loop_iff: "safe_loop v \<longleftrightarrow> set v \<subseteq> set safeChars"
  by (induction v) auto

lemma visitKeys_rest: "0 < i \<Longrightarrow> visitKeys i ks = Inr ks"
  by (induction ks arbitrary: i) auto

lemma unquote_quoted:
  assumes "Text k = DQ @ inner @ DQ"
  shows "unquote k = Inr (if set inner \<subseteq> set safeChars then k\<lparr>Text := inner\<rparr> else k)"
  using assms by (simp add: unquote_def slice_def safe_loop_iff)

lemma visitKeys_quoted:
  assumes "Text k = DQ @ inner @ DQ"
  shows "visitKeys 0 (k # ks)
          = Inr ((if set inner \<subseteq> set safeChars then k\<lparr>Text := inner\<rparr> else k) # ks)"
  by (simp add: unquote_quoted [OF assms] visitKeys_rest)

lemma visitObjectItem_Keys:
  assumes "visitObjectItem J (ObjectItem keys a v) out = Inr (item', out')"
  shows "visitKeys 0 keys = Inr (Keys item')"
  using assms by (auto split: sum.splits Node.splits prod.splits)
text \<open>The key loop returns unless the first key is the one-character text \<open>"\<close>.\<close>

lemma unquote_returns_iff: "(\<exists>k'. unquote k = Inr k') \<longleftrightarrow> Text k \<noteq> DQ"
proof (cases "Text k")
  case Nil
  then show ?thesis by (simp add: unquote_def)
next
  case (Cons c cs)
  then show ?thesis
    by (cases cs) (auto simp: unquote_def slice_def Let_def)
qed

lemma visitKeys_returns_iff: "(\<exists>ks'. visitKeys 0 keys = Inr ks') \<longleftrightarrow> key_in_range keys"
proof (cases keys)
  case Nil
  then show ?thesis by (simp add: key_in_range_def)
next
  case (Cons k ks)
  have "visitKeys (0 + 1) ks = Inr ks" by (rule visitKeys_rest) simp
  then have "(\<exists>ks'. visitKeys 0 (k # ks) = Inr ks') \<longleftrightarrow> (\<exists>k'. unquote k = Inr k')"
    by (auto split: sum.splits)
  with Cons show ?thesis by (simp add: key_in_range_def unquote_returns_iff del: visitKeys.simps)
qed

lemma safeChars_64: "length safeChars = 64 \<and> distinct safeChars"
  by (simp add: safeChars_def)

text \<open>
  Claim C2: of the keys of an object item only the first is considered. When its text is
  a double-quoted string, the quotes are stripped if every character between them is
  one of the 64 safe characters, and the text stays as it is if some character (a dot, a
  space) is not. The other keys are never changed.
\<close>

theorem first_key_unquoted:
  assumes "Text k = DQ @ inner @ DQ"
  shows "visitKeys 0 (k # ks)
           = Inr ((if set inner \<subseteq> set safeChars then k\<lparr>Text := inner\<rparr> else k) # ks)
         \<and> (\<forall>item' out'. visitObjectItem J (ObjectItem (k # ks) a v) out = Inr (item', out')
               \<longrightarrow> Keys item'
                     = (if set inner \<subseteq> set safeChars then k\<lparr>Text := inner\<rparr> else k) # ks)"
proof (intro conjI allI impI)
  show *: "visitKeys 0 (k # ks)
           = Inr ((if set inner \<subseteq> set safeChars then k\<lparr>Text := inner\<rparr> else k) # ks)"
    by (rule visitKeys_quoted [OF assms])
  fix item' out'
  assume "visitObjectItem J (ObjectItem (k # ks) a v) out = Inr (item', out')"
  then have "visitKeys 0 (k # ks) = Inr (Keys item')" by (rule visitObjectItem_Keys)
  with * show "Keys item' = (if set inner \<subseteq> set safeChars then k\<lparr>Text := inner\<rparr> else k) # ks"
    by simp
qed

theorem first_key_unquoted_witness:
  "Text \<lparr>Type = 9, Text = DQ @ ''resource'' @ DQ\<rparr> = DQ @ ''resource'' @ DQ
   \<and> set ''resource'' \<subseteq> set safeChars
   \<and> visitKeys 0 [\<lparr>Type = 9, Text = DQ @ ''resource'' @ DQ\<rparr>,
                      \<lparr>Type = 9, Text = DQ @ ''aws_vpc'' @ DQ\<rparr>]
       = Inr [\<lparr>Type = 9, Text = ''resource''\<rparr>, \<lparr>Type = 9, Text = DQ @ ''aws_vpc'' @ DQ\<rparr>]
   \<and> visitObjectItem \<lparr>Unmarshal = \<lambda>s. None, MarshalIndent = \<lambda>u::unit. None\<rparr>
         (ObjectItem [\<lparr>Type = 9, Text = DQ @ ''resource'' @ DQ\<rparr>,
                      \<lparr>Type = 9, Text = DQ @ ''aws_vpc'' @ DQ\<rparr>] 0 (ObjectType [])) []
       = Inr (ObjectItem [\<lparr>Type = 9, Text = ''resource''\<rparr>,
                          \<lparr>Type = 9, Text = DQ @ ''aws_vpc'' @ DQ\<rparr>] 1 (ObjectType []), [])
   \<and> Text \<lparr>Type = 9, Text = DQ @ ''a.b c'' @ DQ\<rparr> = DQ @ ''a.b c'' @ DQ
   \<and> \<not> set ''a.b c'' \<subseteq> set safeChars
   \<and> visitKeys 0 [\<lparr>Type = 9, Text = DQ @ ''a.b c'' @ DQ\<rparr>]
       = Inr [\<lparr>Type = 9, Text = DQ @ ''a.b c'' @ DQ\<rparr>]"
  using first_key_unquoted [of "\<lparr>Type = 9, Text = DQ @ ''resource'' @ DQ\<rparr>" "''resource''"
          "[\<lparr>Type = 9, Text = DQ @ ''aws_vpc'' @ DQ\<rparr>]"
          "\<lparr>Unmarshal = \<lambda>s. None, MarshalIndent = \<lambda>u::unit. None\<rparr>" 0 "ObjectType []" "[]"]
        first_key_unquoted [of "\<lparr>Type = 9, Text = DQ @ ''a.b c'' @ DQ\<rparr>" "''a.b c''" "[]"
          "\<lparr>Unmarshal = \<lambda>s. None, MarshalIndent = \<lambda>u::unit. None\<rparr>" 0 "ObjectType []" "[]"]
  by (simp add: safeChars_def unquote_def slice_def)

text \<open>
  Claim C10: a first key whose text is the two characters \<open>""\<close> counts as safe, the test
  on its empty content holding vacuously, and its text becomes the empty string.
\<close>

theorem empty_quoted_key:
  assumes "Text k = DQ @ DQ"
  shows "visitKeys 0 (k # ks) = Inr (k\<lparr>Text := []\<rparr> # ks)
         \<and> (\<forall>item' out'. visitObjectItem J (ObjectItem (k # ks) a v) out = Inr (item', out')
               \<longrightarrow> Keys item' = k\<lparr>Text := []\<rparr> # ks)"
proof (intro conjI allI impI)
  from assms have "Text k = DQ @ [] @ DQ" by simp
  then have "visitKeys 0 (k # ks)
     = Inr ((if set [] \<subseteq> set safeChars then k\<lparr>Text := []\<rparr> else k) # ks)"
    by (rule visitKeys_quoted)
  then show *: "visitKeys 0 (k # ks) = Inr (k\<lparr>Text := []\<rparr> # ks)" by simp
  fix item' out'
  assume "visitObjectItem J (ObjectItem (k # ks) a v) out = Inr (item', out')"
  then have "visitKeys 0 (k # ks) = Inr (Keys item')" by (rule visitObjectItem_Keys)
  with * show "Keys item' = k\<lparr>Text := []\<rparr> # ks" by simp
qed

theorem empty_quoted_key_witness:
  "Text \<lparr>Type = 9, Text = DQ @ DQ\<rparr> = DQ @ DQ
   \<and> visitKeys 0 [\<lparr>Type = 9, Text = DQ @ DQ\<rparr>] = Inr [\<lparr>Type = 9, Text = []\<rparr>]
   \<and> visitObjectItem \<lparr>Unmarshal = \<lambda>s. None, MarshalIndent = \<lambda>u::unit. None\<rparr>
         (ObjectItem [\<lparr>Type = 9, Text = DQ @ DQ\<rparr>] 0 (LiteralType \<lparr>Type = 9, Text = DQ @ ''x'' @ DQ\<rparr>)) []
       = Inr (ObjectItem [\<lparr>Type = 9, Text = []\<rparr>] 1
               (LiteralType \<lparr>Type = 9, Text = DQ @ ''x'' @ DQ\<rparr>), [])"
  using empty_quoted_key [of "\<lparr>Type = 9, Text = DQ @ DQ\<rparr>" "[]"
          "\<lparr>Unmarshal = \<lambda>s. None, MarshalIndent = \<lambda>u::unit. None\<rparr>" 0
          "LiteralType \<lparr>Type = 9, Text = DQ @ ''x'' @ DQ\<rparr>" "[]"]
  by (simp add: unquote_def slice_def heredoc_def)

section \<open>Heredoc recovery\<close>

text \<open>
  A literal that starts with \<open>"<<\<close> and whose unescaped text has a newline: the token
  becomes a heredoc token (type 10). Its text is the unescaped text, or, when the lines
  between the first and the last parse as JSON and are serialized again, the first
  line, the serialized JSON and the last line, joined by newlines.
\<close>

lemma heredoc_multi_line:
  assumes p: "prefix (DQ @ ''<<'') (Text t)"
    and unescaped: "text = Replace (Replace (take (length (Text t) - 2) (drop 1 (Text t))) (BS @ ''n'') NL)
                       (BS @ ''t'') []"
    and nl: "CHR 0x0A \<in> set text"
    and lines: "lines = Split text NL"
    and jsonTest: "jsonTest = Replace (Join (butlast (tl lines)) NL) (BS @ DQ) DQ"
  shows "heredoc J t =
           Inr (case Unmarshal J jsonTest of
                  None \<Rightarrow> t\<lparr>Type := 10, Text := text\<rparr>
                | Some tmp \<Rightarrow>
                   (case MarshalIndent J tmp of
                      None \<Rightarrow> t\<lparr>Type := 10, Text := text\<rparr>
                    | Some dataJsonBytes \<Rightarrow>
                       t\<lparr>Type := 10, Text := hd lines @ NL @ dataJsonBytes @ NL @ last lines\<rparr>))"
proof -
  have len: "2 \<le> length lines"
    unfolding lines using nl by (rule Split_two_lines)
  then have n: "nat (int (length lines) - 1 - 1) = length (tl lines) - 1" by simp
  from len have sl: "slice lines 1 (int (length lines) - 1) = Inr (butlast (tl lines))"
    unfolding slice_def butlast_conv_take n by (simp add: drop_Suc)
  have j: "Join ([hd lines] @ Split js NL @ [last lines]) NL = hd lines @ NL @ js @ NL @ last lines"
    for js
  proof -
    have ne: "Split js NL \<noteq> []" by (rule Split_not_Nil) simp
    then have "Join ([hd lines] @ Split js NL @ [last lines]) NL
                 = hd lines @ NL @ Join (Split js NL @ [last lines]) NL"
      by (simp add: Join_Cons)
    also have "\<dots> = hd lines @ NL @ Join (Split js NL) NL @ NL @ last lines"
      using ne by (simp add: Join_snoc)
    finally show ?thesis by (simp add: Join_Split)
  qed
  have t2: "take (length (drop 1 (Text t)) - 1) (drop 1 (Text t))
              = take (length (Text t) - 2) (drop 1 (Text t))"
    by (simp add: numeral_2_eq_2)
  have "heredoc J t =
          (case slice lines 1 (int (length lines) - 1) of
              Inl p \<Rightarrow> Inl p
            | Inr inner \<Rightarrow>
               (case Unmarshal J (Replace (Join inner NL) (BS @ DQ) DQ) of
                     None \<Rightarrow> Inr (t\<lparr>Text := text, Type := 10\<rparr>)
                   | Some tmp \<Rightarrow>
                      (case MarshalIndent J tmp of
                         None \<Rightarrow> Inr (t\<lparr>Text := text, Type := 10\<rparr>)
                       | Some dataJsonBytes \<Rightarrow>
                          Inr (t\<lparr>Text := text, Type := 10,
                                 Text := Join ([hd lines] @ Split dataJsonBytes NL @ [last lines]) NL\<rparr>))))"
    unfolding heredoc_def Let_def t2 lines unescaped using p
    by (simp cong: sum.case_cong option.case_cong)
  also have "\<dots> = (case Unmarshal J jsonTest of
                     None \<Rightarrow> Inr (t\<lparr>Text := text, Type := 10\<rparr>)
                   | Some tmp \<Rightarrow>
                      (case MarshalIndent J tmp of
                         None \<Rightarrow> Inr (t\<lparr>Text := text, Type := 10\<rparr>)
                       | Some dataJsonBytes \<Rightarrow>
                          Inr (t\<lparr>Text := text, Type := 10,
                                 Text := hd lines @ NL @ dataJsonBytes @ NL @ last lines\<rparr>)))"
    unfolding sl j jsonTest by simp
  also have "\<dots> = Inr (case Unmarshal J jsonTest of
                  None \<Rightarrow> t\<lparr>Type := 10, Text := text\<rparr>
                | Some tmp \<Rightarrow>
                   (case MarshalIndent J tmp of
                      None \<Rightarrow> t\<lparr>Type := 10, Text := text\<rparr>
                    | Some dataJsonBytes \<Rightarrow>
                       t\<lparr>Type := 10, Text := hd lines @ NL @ dataJsonBytes @ NL @ last lines\<rparr>))"
    by (simp split: option.splits)
  finally show ?thesis .
qed

text \<open>When the unescaped text has no newline, the slice of line 94 is out of range.\<close>

lemma heredoc_single_line:
  assumes "prefix (DQ @ ''<<'') (Text t)"
    and "CHR 0x0A \<notin> set (Replace (Replace (take (length (Text t) - 2) (drop 1 (Text t)))
                                  (BS @ ''n'') NL) (BS @ ''t'') [])"
  shows "heredoc J t = Inl (SliceBoundsOutOfRange 1 0)"
proof -
  have t2: "take (length (drop 1 (Text t)) - 1) (drop 1 (Text t))
              = take (length (Text t) - 2) (drop 1 (Text t))"
    by (simp add: numeral_2_eq_2)
  from assms(2) have "length (Split (Replace (Replace (take (length (Text t) - 2)
        (drop 1 (Text t))) (BS @ ''n'') NL) (BS @ ''t'') []) NL) = 1"
    by (rule Split_one_line)
  then show ?thesis
    unfolding heredoc_def Let_def t2 using assms(1) by (simp add: slice_def)
qed

text \<open>
  The unescaped text has a newline exactly when the text between the quotes has the
  escape sequence for a newline, or a newline itself.
\<close>

lemma heredoc_newline_iff:
  "CHR 0x0A \<in> set (Replace (Replace raw (BS @ ''n'') NL) (BS @ ''t'') [])
     \<longleftrightarrow> sublist (BS @ ''n'') raw \<or> CHR 0x0A \<in> set raw"
proof
  assume "CHR 0x0A \<in> set (Replace (Replace raw (BS @ ''n'') NL) (BS @ ''t'') [])"
  then have "CHR 0x0A \<in> set (Replace raw (BS @ ''n'') NL)"
    by (auto dest: char_of_Replace)
  then show "sublist (BS @ ''n'') raw \<or> CHR 0x0A \<in> set raw"
    by (auto dest: char_of_Replace)
next
  assume "sublist (BS @ ''n'') raw \<or> CHR 0x0A \<in> set raw"
  then have "CHR 0x0A \<in> set (Replace raw (BS @ ''n'') NL)"
  proof
    assume "sublist (BS @ ''n'') raw"
    then have "set NL \<subseteq> set (Replace raw (BS @ ''n'') NL)" by (intro Replace_inserts) simp_all
    then show ?thesis by simp
  next
    assume "CHR 0x0A \<in> set raw"
    then show ?thesis by (intro Replace_keeps_char) simp_all
  qed
  then show "CHR 0x0A \<in> set (Replace (Replace raw (BS @ ''n'') NL) (BS @ ''t'') [])"
    using Replace_keeps_char [of "CHR 0x0A" "BS @ ''t''" "Replace raw (BS @ ''n'') NL" "[]"]
    by simp
qed

lemma heredoc_panics_iff:
  assumes "prefix (DQ @ ''<<'') (Text t)"
  shows "heredoc J t = Inl (SliceBoundsOutOfRange 1 0)
           \<longleftrightarrow> \<not> sublist (BS @ ''n'') (take (length (Text t) - 2) (drop 1 (Text t)))
               \<and> CHR 0x0A \<notin> set (take (length (Text t) - 2) (drop 1 (Text t)))"
proof (cases "CHR 0x0A \<in> set (Replace (Replace (take (length (Text t) - 2) (drop 1 (Text t)))
                                  (BS @ ''n'') NL) (BS @ ''t'') [])")
  case True
  from heredoc_multi_line [OF assms refl True refl refl, of J]
  have "heredoc J t \<noteq> Inl (SliceBoundsOutOfRange 1 0)" by simp
  with True show ?thesis unfolding heredoc_newline_iff by blast
next
  case False
  from heredoc_single_line [OF assms False]
  have "heredoc J t = Inl (SliceBoundsOutOfRange 1 0)" .
  with False show ?thesis unfolding heredoc_newline_iff by blast
qed

lemma heredoc_returns_iff: "(\<exists>t'. heredoc J t = Inr t') \<longleftrightarrow> literal_in_range t"
proof (cases "prefix (DQ @ ''<<'') (Text t)")
  case True
  have "(\<exists>t'. heredoc J t = Inr t') \<longleftrightarrow> heredoc J t \<noteq> Inl (SliceBoundsOutOfRange 1 0)"
  proof (cases "heredoc J t")
    case (Inl p)
    have "p = SliceBoundsOutOfRange 1 0"
    proof (cases "CHR 0x0A \<in> set (Replace (Replace (take (length (Text t) - 2) (drop 1 (Text t)))
                                  (BS @ ''n'') NL) (BS @ ''t'') [])")
      case nl: True
      from heredoc_multi_line [OF True refl nl refl refl, of J] Inl show ?thesis by simp
    next
      case False
      from heredoc_single_line [OF True False, of J] Inl show ?thesis by simp
    qed
    with Inl show ?thesis by simp
  next
    case (Inr t')
    then show ?thesis by simp
  qed
  with True show ?thesis
    by (simp only: heredoc_panics_iff [OF True] literal_in_range_def if_True) blast
next
  case False
  then show ?thesis by (simp add: heredoc_def literal_in_range_def)
qed

text \<open>
  Claim C3 describes the rewriting of every literal that starts with \<open>"<<\<close> and says that
  no error is raised. For the literal \<open>"<<EOF"\<close>, whose unescaped text is the single line
  \<open><<EOF\<close>, the heredoc branch and with it \<open>visitObjectItem\<close> panic with slice bounds
  out of range.
\<close>

theorem heredoc_single_line_panics:
  "heredoc J \<lparr>Type = 9, Text = DQ @ ''<<EOF'' @ DQ\<rparr> = Inl (SliceBoundsOutOfRange 1 0)
   \<and> visitObjectItem J
        (ObjectItem [\<lparr>Type = 9, Text = DQ @ ''policy'' @ DQ\<rparr>] 0
           (LiteralType \<lparr>Type = 9, Text = DQ @ ''<<EOF'' @ DQ\<rparr>)) out
      = Inl (SliceBoundsOutOfRange 1 0)"
  by (simp add: heredoc_def slice_def unquote_def)


section \<open>The traversal\<close>

lemma visit_Other: "visit J (Other tname) out = Inr (Other tname, out @ [UnknownType tname])"
  by simp

text \<open>
  The traversal returns exactly on the trees that are in range; on every other tree it
  panics.
\<close>

lemma visit_returns_iff:
  "(\<exists>r. visit J n out = Inr r) \<longleftrightarrow> in_range n"
  "(\<exists>r. visitObjectItem J item out = Inr r) \<longleftrightarrow> item_in_range item"
  "(\<exists>r. visitItems J items out = Inr r) \<longleftrightarrow> items_in_range items"
proof (induction J n out and J item out and J items out
       rule: visit_visitObjectItem_visitItems.induct)
  case (9 J keys assign val out)
  show ?case
  proof (cases "visitKeys 0 keys")
    case (Inl p)
    then have "\<not> key_in_range keys"
      using visitKeys_returns_iff [of keys] by simp
    with Inl show ?thesis by simp
  next
    case (Inr keys')
    then have keys: "key_in_range keys"
      using visitKeys_returns_iff [of keys] by simp
    show ?thesis
    proof (cases "\<exists>t. val = LiteralType t")
      case True
      then obtain t where val: "val = LiteralType t" ..
      have "(\<exists>r. visitObjectItem J (ObjectItem keys assign (LiteralType t)) out = Inr r)
              \<longleftrightarrow> (\<exists>t'. heredoc J t = Inr t')"
        using Inr by (auto split: sum.splits)
      with val keys show ?thesis
        by (simp add: heredoc_returns_iff del: visitObjectItem.simps)
    next
      case False
      have ih: "(\<exists>r. visit J val out = Inr r) \<longleftrightarrow> in_range val"
        using False 9(1,2,3,4,6,7,8) [OF Inr] by (cases val) blast+
      have "(\<exists>r. visitObjectItem J (ObjectItem keys assign val) out = Inr r)
              \<longleftrightarrow> (\<exists>r. visit J val out = Inr r)"
        using Inr False by (cases val) (auto split: sum.splits)
      moreover have "item_in_range (ObjectItem keys assign val) \<longleftrightarrow> in_range val"
        using keys False by (cases val) auto
      ultimately show ?thesis using ih by blast
    qed
  qed
next
  case (11 J i "is" out)
  show ?case
  proof (cases "visitObjectItem J i out")
    case (Inl p)
    with 11(1) show ?thesis by simp
  next
    case (Inr r)
    obtain i' out' where r: "r = (i', out')" by (cases r)
    from 11(1) Inr have "item_in_range i" by simp
    moreover from 11(2) [OF Inr [unfolded r] refl]
    have "(\<exists>r. visitItems J is out' = Inr r) \<longleftrightarrow> items_in_range is" .
    ultimately show ?thesis using Inr r by (auto split: sum.splits)
  qed
qed (auto split: sum.splits)

text \<open>
  Claim C7 says that the traversal never fails. A file with one item whose value is the
  literal \<open>"<< draft"\<close> makes \<open>visit\<close> panic at the slice of line 94; an item whose
  first key has the one-character text \<open>"\<close> makes \<open>visitObjectItem\<close> panic at the
  slice of line 68.
\<close>

theorem visit_panics:
  "visit J
     (File (ObjectList
        [ObjectItem [\<lparr>Type = 9, Text = DQ @ ''description'' @ DQ\<rparr>] 0
           (LiteralType \<lparr>Type = 9, Text = DQ @ ''<< draft'' @ DQ\<rparr>)])) out
   = Inl (SliceBoundsOutOfRange 1 0)
   \<and> visitObjectItem J
        (ObjectItem [\<lparr>Type = 9, Text = DQ\<rparr>] 0 (LiteralType \<lparr>Type = 6, Text = ''1''\<rparr>)) out
      = Inl (SliceBoundsOutOfRange 1 0)"
  by (simp add: heredoc_def slice_def unquote_def)


section \<open>Whitespace\<close>

lemma Replace_NLNL_head:
  "prefix NL (Replace s (NL @ NL) NL) \<Longrightarrow> prefix NL s"
  by (cases s) (auto split: if_splits)

lemma no_blank_after_collapse:
  "\<not> sublist (NL @ NL @ NL) s \<Longrightarrow> \<not> sublist (NL @ NL) (Replace s (NL @ NL) NL)"
proof (induction s "NL @ NL" NL rule: Replace.induct)
  case 1
  then show ?case by simp
next
  case (2 c cs)
  show ?case
  proof (cases "prefix (NL @ NL) (c # cs)")
    case True
    then obtain rest where cs: "c # cs = (NL @ NL) @ rest" by (auto simp: prefix_def)
    with 2(4) have rest: "\<not> prefix NL rest" and no3: "\<not> sublist (NL @ NL @ NL) rest"
      by (auto simp: sublist_Cons_right)
    from cs have d: "drop (length (NL @ NL)) (c # cs) = rest" by simp
    have "\<not> sublist (NL @ NL) (Replace rest (NL @ NL) NL)"
      using 2(2) [OF _ True] no3 d by simp
    moreover have "\<not> prefix NL (Replace rest (NL @ NL) NL)"
      using rest Replace_NLNL_head by blast
    moreover have "Replace (c # cs) (NL @ NL) NL = NL @ Replace rest (NL @ NL) NL"
      unfolding cs by (rule Replace_match) simp
    ultimately show ?thesis by (simp add: sublist_Cons_right)
  next
    case False
    from 2(4) have "\<not> sublist (NL @ NL @ NL) cs" by (auto simp: sublist_Cons_right)
    with 2(3) [OF _ False] have ih: "\<not> sublist (NL @ NL) (Replace cs (NL @ NL) NL)" by simp
    have "\<not> prefix (NL @ NL) (c # Replace cs (NL @ NL) NL)"
    proof
      assume "prefix (NL @ NL) (c # Replace cs (NL @ NL) NL)"
      then have c: "c = CHR 0x0A" and "prefix NL (Replace cs (NL @ NL) NL)" by auto
      then have "prefix NL cs" using Replace_NLNL_head by blast
      with c have "prefix (NL @ NL) (c # cs)" by simp
      with False show False by blast
    qed
    moreover have "Replace (c # cs) (NL @ NL) NL = c # Replace cs (NL @ NL) NL"
      using False by (intro Replace_no_match) simp_all
    ultimately show ?thesis using ih by (simp only: sublist_Cons_right) blast
  qed
qed

lemma sublist_boundary_separated: "sublist boundary (separated @ X) \<longleftrightarrow> sublist boundary X"
  by (simp add: sublist_Cons_right)

lemma prefix_boundary_Replace:
  assumes "prefix boundary (c # Replace cs boundary separated)"
  shows "prefix boundary (c # cs)"
proof -
  from assms have c: "c = CHR ''}''" and "prefix (NL @ ''resource'') (Replace cs boundary separated)"
    by auto
  from this(2) have "prefix (NL @ ''resource'') cs"
    by (rule prefix_Replace [rotated 3]) simp_all
  with c show ?thesis by simp
qed

lemma no_boundary_after_separation:
  "\<not> sublist boundary (Replace s boundary separated)"
proof (induction s boundary separated rule: Replace.induct)
  case 1
  then show ?case by simp
next
  case (2 c cs)
  show ?case
  proof (cases "prefix boundary (c # cs)")
    case True
    then obtain rest where cs: "c # cs = boundary @ rest" by (auto simp: prefix_def)
    then have d: "drop (length boundary) (c # cs) = rest" by simp
    from 2(2) [OF _ True] d have "\<not> sublist boundary (Replace rest boundary separated)"
      by simp
    moreover have "Replace (c # cs) boundary separated = separated @ Replace rest boundary separated"
      unfolding cs by (rule Replace_match) simp
    ultimately show ?thesis by (simp only: sublist_boundary_separated not_False_eq_True)
  next
    case False
    from 2(3) [OF _ False] have ih: "\<not> sublist boundary (Replace cs boundary separated)" by simp
    have "\<not> prefix boundary (c # Replace cs boundary separated)"
      using False prefix_boundary_Replace by blast
    moreover have "Replace (c # cs) boundary separated = c # Replace cs boundary separated"
      using False by (intro Replace_no_match) simp_all
    ultimately show ?thesis using ih by (simp only: sublist_Cons_right) blast
  qed
qed


lemma blank_only_at_boundary:
  assumes "\<not> sublist (NL @ NL) t"
    and "Replace t boundary separated = pre @ (NL @ NL) @ post"
  shows "suffix ''}'' pre \<and> prefix ''resource'' post"
  using assms
proof (induction t boundary separated arbitrary: pre rule: Replace.induct)
  case 1
  then show ?case by simp
next
  case (2 c cs)
  show ?case
  proof (cases "prefix boundary (c # cs)")
    case True
    then obtain rest where cs: "c # cs = boundary @ rest" by (auto simp: prefix_def)
    then have d: "drop (length boundary) (c # cs) = rest" by simp
    have rest: "\<not> sublist (NL @ NL) rest"
    proof
      assume "sublist (NL @ NL) rest"
      then have "sublist (NL @ NL) (boundary @ rest)" by (simp only: sublist_append) blast
      with "2.prems"(1) cs show False by simp
    qed
    have eq: "Replace (c # cs) boundary separated = separated @ Replace rest boundary separated"
      unfolding cs by (rule Replace_match) simp
    with "2.prems"(2)
    have "separated @ Replace rest boundary separated = pre @ (NL @ NL) @ post" by simp
    then consider (here) "pre = ''}''" "post = ''resource'' @ Replace rest boundary separated"
      | (later) pre' where "pre = separated @ pre'"
          "Replace rest boundary separated = pre' @ (NL @ NL) @ post"
      by (auto simp: Cons_eq_append_conv)
    then show ?thesis
    proof cases
      case here
      then show ?thesis by simp
    next
      case later
      have "suffix ''}'' pre' \<and> prefix ''resource'' post"
        using "2.hyps"(2) [OF _ True, of pre'] d rest later(2) by simp
      then have "suffix ''}'' (separated @ pre') \<and> prefix ''resource'' post"
        by (metis suffix_appendI)
      with later(1) show ?thesis by simp
    qed
  next
    case False
    have eq: "Replace (c # cs) boundary separated = c # Replace cs boundary separated"
      using False by (intro Replace_no_match) simp_all
    have cs: "\<not> sublist (NL @ NL) cs"
      using "2.prems"(1) by (auto simp: sublist_Cons_right)
    from eq "2.prems"(2) have "c # Replace cs boundary separated = pre @ (NL @ NL) @ post"
      by simp
    then consider (here) "pre = []" "c = CHR 0x0A" "prefix NL (Replace cs boundary separated)"
      | (later) pre' where "pre = c # pre'"
          "Replace cs boundary separated = pre' @ (NL @ NL) @ post"
      by (cases pre) auto
    then show ?thesis
    proof cases
      case here
      from here(3) have "prefix NL cs" by (rule prefix_Replace [rotated 3]) simp_all
      with here(2) have "prefix (NL @ NL) (c # cs)" by simp
      then have "sublist (NL @ NL) (c # cs)" by (rule prefix_imp_sublist)
      with "2.prems"(1) show ?thesis by blast
    next
      case later
      have "suffix ''}'' pre' \<and> prefix ''resource'' post"
        using "2.hyps"(3) [OF _ False, of pre'] cs later(2) by simp
      then have "suffix ''}'' (c # pre') \<and> prefix ''resource'' post"
        by (metis suffix_ConsI)
      with later(1) show ?thesis by simp
    qed
  qed
qed

text \<open>
  The two replacements of line 132 and line 135 add and remove newlines between lines
  and nothing else.
\<close>

lemma Split_NL_Cons:
  "Split (c # x) NL = (if c = CHR 0x0A then [] # Split x NL
                       else (c # hd (Split x NL)) # tl (Split x NL))"
proof -
  have "Split x NL \<noteq> []" by (rule Split_not_Nil) simp
  then obtain l ls where "Split x NL = l # ls" by (cases "Split x NL") auto
  then show ?thesis by simp
qed

lemma same_lines_refl: "same_lines x x"
  by (simp add: same_lines_def)

lemma same_lines_Cons: "same_lines x y \<Longrightarrow> same_lines (c # x) (c # y)"
  unfolding same_lines_def Split_NL_Cons
  by (cases "Split x NL"; cases "Split y NL") (auto simp: Split_not_Nil)

lemma same_lines_append: "same_lines x y \<Longrightarrow> same_lines (a @ x) (a @ y)"
  by (induction a) (auto intro: same_lines_Cons)

lemma same_lines_blank: "same_lines x y \<Longrightarrow> same_lines (NL @ x) (NL @ NL @ y)"
  unfolding same_lines_def
  by (cases "Split x NL"; cases "Split y NL") (auto simp: Split_not_Nil)

lemma same_lines_sym: "same_lines x y \<Longrightarrow> same_lines y x"
  by (simp add: same_lines_def)

lemma same_lines_Replace:
  assumes "old \<noteq> []" and "\<And>x y. same_lines x y \<Longrightarrow> same_lines (new @ x) (old @ y)"
  shows "same_lines (Replace s old new) s"
  using assms
proof (induction s old new rule: Replace.induct)
  case (1 old new)
  then show ?case by (simp add: same_lines_refl)
next
  case (2 c cs old new)
  show ?case
  proof (cases "prefix old (c # cs)")
    case True
    then obtain rest where cs: "c # cs = old @ rest" by (auto simp: prefix_def)
    then have d: "drop (length old) (c # cs) = rest" by simp
    from "2.IH"(2) [OF "2.prems"(1) True "2.prems"] d
    have "same_lines (Replace rest old new) rest" by simp
    then have "same_lines (new @ Replace rest old new) (old @ rest)" by (rule "2.prems"(2))
    moreover have "Replace (c # cs) old new = new @ Replace rest old new"
      unfolding cs using "2.prems"(1) by (rule Replace_match)
    ultimately show ?thesis using cs by simp
  next
    case False
    from "2.IH"(3) [OF "2.prems"(1) False "2.prems"]
    have "same_lines (Replace cs old new) cs" .
    then have "same_lines (c # Replace cs old new) (c # cs)" by (rule same_lines_Cons)
    moreover have "Replace (c # cs) old new = c # Replace cs old new"
      using "2.prems"(1) False by (rule Replace_no_match)
    ultimately show ?thesis by simp
  qed
qed

lemma same_lines_trans: "same_lines x y \<Longrightarrow> same_lines y z \<Longrightarrow> same_lines x z"
  by (simp add: same_lines_def)

lemma same_lines_remove_extra_whitespace: "same_lines (remove_extra_whitespace s) s"
proof -
  define t where "t = Replace s (NL @ NL) NL"
  have 1: "same_lines t s"
    unfolding t_def
  proof (rule same_lines_Replace)
    fix x y assume "same_lines x y"
    then have "same_lines (NL @ x) (NL @ NL @ y)" by (rule same_lines_blank)
    then show "same_lines (NL @ x) ((NL @ NL) @ y)" by simp
  qed simp
  have "same_lines (Replace t boundary separated) t"
  proof (rule same_lines_Replace)
    fix x y assume "same_lines x y"
    then have "same_lines (''resource'' @ x) (''resource'' @ y)" by (rule same_lines_append)
    then have "same_lines (''resource'' @ y) (''resource'' @ x)" by (rule same_lines_sym)
    then have "same_lines (NL @ ''resource'' @ y) (NL @ NL @ ''resource'' @ x)"
      by (rule same_lines_blank)
    then have "same_lines (NL @ NL @ ''resource'' @ x) (NL @ ''resource'' @ y)"
      by (rule same_lines_sym)
    then have "same_lines (''}'' @ NL @ NL @ ''resource'' @ x) (''}'' @ NL @ ''resource'' @ y)"
      by (rule same_lines_append)
    then show "same_lines (separated @ x) (boundary @ y)" by simp
  qed simp
  with 1 have "same_lines (Replace t boundary separated) s" by (rule same_lines_trans [rotated])
  then show ?thesis by (simp add: remove_extra_whitespace_def t_def)
qed

lemma same_lines_filter:
  assumes "same_lines x y"
  shows "filter (\<lambda>l. l \<noteq> []) (Split x NL) = filter (\<lambda>l. l \<noteq> []) (Split y NL)"
proof -
  have "Split x NL \<noteq> []" and "Split y NL \<noteq> []" by (rule Split_not_Nil, simp)+
  then obtain a as b bs where x: "Split x NL = a # as" and y: "Split y NL = b # bs"
    by (cases "Split x NL"; cases "Split y NL") auto
  from assms have "a = b" and "filter (\<lambda>l. l \<noteq> []) as = filter (\<lambda>l. l \<noteq> []) bs"
    unfolding same_lines_def x y by simp_all
  then show ?thesis unfolding x y by simp
qed

lemma lines_kept:
  "filter (\<lambda>l. l \<noteq> []) (Split (remove_extra_whitespace s) NL)
     = filter (\<lambda>l. l \<noteq> []) (Split s NL)"
  by (rule same_lines_filter) (rule same_lines_remove_extra_whitespace)

text \<open>
  Claim C5, as the code has it. For every rendered text the lines that are not empty
  stay as they are, in their order, and in the result no closing brace is followed on
  the next line by the word \<open>resource\<close> without a blank line between them. When the
  rendered text has no three newlines in a row, the blank lines of the result are at
  these places only, one at each: every two newlines in a row stand directly after a
  closing brace and directly before \<open>resource\<close>, and there are no three newlines in a
  row. Such a place can lie inside a block.
\<close>

theorem whitespace_normalized:
  "filter (\<lambda>l. l \<noteq> []) (Split (remove_extra_whitespace s) NL)
     = filter (\<lambda>l. l \<noteq> []) (Split s NL)
   \<and> \<not> sublist (''}'' @ NL @ ''resource'') (remove_extra_whitespace s)
   \<and> (\<not> sublist (NL @ NL @ NL) s \<longrightarrow>
        (\<forall>pre post. remove_extra_whitespace s = pre @ (NL @ NL) @ post
            \<longrightarrow> suffix ''}'' pre \<and> prefix ''resource'' post)
        \<and> \<not> sublist (NL @ NL @ NL) (remove_extra_whitespace s))"
proof (intro conjI impI)
  define t where "t = Replace s (NL @ NL) NL"
  have out: "remove_extra_whitespace s = Replace t boundary separated"
    by (simp add: remove_extra_whitespace_def t_def)
  show "filter (\<lambda>l. l \<noteq> []) (Split (remove_extra_whitespace s) NL)
          = filter (\<lambda>l. l \<noteq> []) (Split s NL)"
    by (rule lines_kept)
  show "\<not> sublist (''}'' @ NL @ ''resource'') (remove_extra_whitespace s)"
    unfolding out by (rule no_boundary_after_separation)
  assume s: "\<not> sublist (NL @ NL @ NL) s"
  have t: "\<not> sublist (NL @ NL) t"
    unfolding t_def using s by (rule no_blank_after_collapse)
  have 1: "suffix ''}'' pre \<and> prefix ''resource'' post"
    if "remove_extra_whitespace s = pre @ (NL @ NL) @ post" for pre post
    using t that unfolding out by (rule blank_only_at_boundary)
  then show "\<forall>pre post. remove_extra_whitespace s = pre @ (NL @ NL) @ post
            \<longrightarrow> suffix ''}'' pre \<and> prefix ''resource'' post"
    by blast
  show "\<not> sublist (NL @ NL @ NL) (remove_extra_whitespace s)"
  proof
    assume "sublist (NL @ NL @ NL) (remove_extra_whitespace s)"
    then obtain ps ss where "remove_extra_whitespace s = ps @ (NL @ NL) @ (NL @ ss)"
      by (auto simp: sublist_def)
    then have "prefix ''resource'' (NL @ ss)" using 1 by blast
    then show False by simp
  qed
qed

text \<open>Two resources of different types, as the printer renders them.\<close>

theorem whitespace_normalized_witness:
  "\<not> sublist (NL @ NL @ NL)
       (''resource \"aws_vpc\" \"a\" {'' @ NL @ ''  cidr = 1'' @ NL @ ''}'' @ NL @ NL
        @ ''resource \"aws_subnet\" \"b\" {'' @ NL @ ''  cidr = 2'' @ NL @ ''}'' @ NL)
   \<and> remove_extra_whitespace
       (''resource \"aws_vpc\" \"a\" {'' @ NL @ ''  cidr = 1'' @ NL @ ''}'' @ NL @ NL
        @ ''resource \"aws_subnet\" \"b\" {'' @ NL @ ''  cidr = 2'' @ NL @ ''}'' @ NL)
     = (''resource \"aws_vpc\" \"a\" {'' @ NL @ ''  cidr = 1'' @ NL @ ''}'') @ (NL @ NL)
        @ (''resource \"aws_subnet\" \"b\" {'' @ NL @ ''  cidr = 2'' @ NL @ ''}'' @ NL)
   \<and> suffix ''}'' (''resource \"aws_vpc\" \"a\" {'' @ NL @ ''  cidr = 1'' @ NL @ ''}'')
   \<and> prefix ''resource'' (''resource \"aws_subnet\" \"b\" {'' @ NL @ ''  cidr = 2'' @ NL @ ''}'' @ NL)
   \<and> filter (\<lambda>l. l \<noteq> [])
        (Split (remove_extra_whitespace
           (''resource \"aws_vpc\" \"a\" {'' @ NL @ ''  cidr = 1'' @ NL @ ''}'' @ NL @ NL
            @ ''resource \"aws_subnet\" \"b\" {'' @ NL @ ''  cidr = 2'' @ NL @ ''}'' @ NL)) NL)
     = [''resource \"aws_vpc\" \"a\" {'', ''  cidr = 1'', ''}'',
        ''resource \"aws_subnet\" \"b\" {'', ''  cidr = 2'', ''}'']"
proof -
  have h: "\<not> sublist (NL @ NL @ NL)
       (''resource \"aws_vpc\" \"a\" {'' @ NL @ ''  cidr = 1'' @ NL @ ''}'' @ NL @ NL
        @ ''resource \"aws_subnet\" \"b\" {'' @ NL @ ''  cidr = 2'' @ NL @ ''}'' @ NL)"
    by (simp add: sublist_Cons_right)
  have e: "remove_extra_whitespace
       (''resource \"aws_vpc\" \"a\" {'' @ NL @ ''  cidr = 1'' @ NL @ ''}'' @ NL @ NL
        @ ''resource \"aws_subnet\" \"b\" {'' @ NL @ ''  cidr = 2'' @ NL @ ''}'' @ NL)
     = (''resource \"aws_vpc\" \"a\" {'' @ NL @ ''  cidr = 1'' @ NL @ ''}'') @ (NL @ NL)
        @ (''resource \"aws_subnet\" \"b\" {'' @ NL @ ''  cidr = 2'' @ NL @ ''}'' @ NL)"
    by (simp add: remove_extra_whitespace_def)
  have l: "filter (\<lambda>l. l \<noteq> [])
        (Split (''resource \"aws_vpc\" \"a\" {'' @ NL @ ''  cidr = 1'' @ NL @ ''}'' @ NL @ NL
            @ ''resource \"aws_subnet\" \"b\" {'' @ NL @ ''  cidr = 2'' @ NL @ ''}'' @ NL) NL)
     = [''resource \"aws_vpc\" \"a\" {'', ''  cidr = 1'', ''}'',
        ''resource \"aws_subnet\" \"b\" {'', ''  cidr = 2'', ''}'']"
    by simp
  note w = whitespace_normalized
    [of "''resource \"aws_vpc\" \"a\" {'' @ NL @ ''  cidr = 1'' @ NL @ ''}'' @ NL @ NL
        @ ''resource \"aws_subnet\" \"b\" {'' @ NL @ ''  cidr = 2'' @ NL @ ''}'' @ NL"]
  from w h e
  have "suffix ''}'' (''resource \"aws_vpc\" \"a\" {'' @ NL @ ''  cidr = 1'' @ NL @ ''}'')
   \<and> prefix ''resource'' (''resource \"aws_subnet\" \"b\" {'' @ NL @ ''  cidr = 2'' @ NL @ ''}'' @ NL)"
    by blast
  moreover from w l have "filter (\<lambda>l. l \<noteq> [])
        (Split (remove_extra_whitespace
           (''resource \"aws_vpc\" \"a\" {'' @ NL @ ''  cidr = 1'' @ NL @ ''}'' @ NL @ NL
            @ ''resource \"aws_subnet\" \"b\" {'' @ NL @ ''  cidr = 2'' @ NL @ ''}'' @ NL)) NL)
     = [''resource \"aws_vpc\" \"a\" {'', ''  cidr = 1'', ''}'',
        ''resource \"aws_subnet\" \"b\" {'', ''  cidr = 2'', ''}'']"
    by (simp only:)
  ultimately show ?thesis using h e by blast
qed

text \<open>
  Two renderings with a blank line inside a block, after more opening than closing
  braces. In the first a heredoc body has two blank lines in a row and keeps one of
  them. The second is a document of two resources without three newlines in a row: the
  heredoc of its first block has a line that ends with a closing brace before a line
  that starts with \<open>resource\<close>, and a blank line is put between the two.
\<close>

theorem blank_line_left_in_block:
  "remove_extra_whitespace
       (''resource \"aws_iam_policy\" \"p\" {'' @ NL @ ''  policy = <<EOF'' @ NL @ ''line1''
        @ NL @ NL @ NL @ ''line2'' @ NL @ ''EOF'' @ NL @ ''}'' @ NL)
     = (''resource \"aws_iam_policy\" \"p\" {'' @ NL @ ''  policy = <<EOF'' @ NL @ ''line1'')
        @ (NL @ NL) @ (''line2'' @ NL @ ''EOF'' @ NL @ ''}'' @ NL)
   \<and> length (filter (\<lambda>c. c = CHR ''}'')
         (''resource \"aws_iam_policy\" \"p\" {'' @ NL @ ''  policy = <<EOF'' @ NL @ ''line1''))
       < length (filter (\<lambda>c. c = CHR ''{'')
         (''resource \"aws_iam_policy\" \"p\" {'' @ NL @ ''  policy = <<EOF'' @ NL @ ''line1''))
   \<and> \<not> sublist (NL @ NL @ NL)
       (''resource \"aws_iam_policy\" \"p\" {'' @ NL @ ''  policy = <<EOF'' @ NL @ ''a = {}''
        @ NL @ ''resource = 1'' @ NL @ ''EOF'' @ NL @ ''}'' @ NL @ NL
        @ ''resource \"aws_vpc\" \"v\" {'' @ NL @ ''  cidr = 1'' @ NL @ ''}'' @ NL)
   \<and> remove_extra_whitespace
       (''resource \"aws_iam_policy\" \"p\" {'' @ NL @ ''  policy = <<EOF'' @ NL @ ''a = {}''
        @ NL @ ''resource = 1'' @ NL @ ''EOF'' @ NL @ ''}'' @ NL @ NL
        @ ''resource \"aws_vpc\" \"v\" {'' @ NL @ ''  cidr = 1'' @ NL @ ''}'' @ NL)
     = (''resource \"aws_iam_policy\" \"p\" {'' @ NL @ ''  policy = <<EOF'' @ NL @ ''a = {}'')
        @ (NL @ NL)
        @ (''resource = 1'' @ NL @ ''EOF'' @ NL @ ''}'' @ NL @ NL
           @ ''resource \"aws_vpc\" \"v\" {'' @ NL @ ''  cidr = 1'' @ NL @ ''}'' @ NL)
   \<and> length (filter (\<lambda>c. c = CHR ''}'')
         (''resource \"aws_iam_policy\" \"p\" {'' @ NL @ ''  policy = <<EOF'' @ NL @ ''a = {}''))
       < length (filter (\<lambda>c. c = CHR ''{'')
         (''resource \"aws_iam_policy\" \"p\" {'' @ NL @ ''  policy = <<EOF'' @ NL @ ''a = {}''))"
  by (simp add: remove_extra_whitespace_def sublist_Cons_right)


section \<open>Escape sequences\<close>

text \<open>The last two replacements of line 143 and line 144, on any text.\<close>

lemma escapes_replaced:
  "\<not> sublist (BS @ ''u003c'') (Replace (Replace a (BS @ ''u003c'') ''<'') (BS @ ''u003e'') ''>'')
   \<and> \<not> sublist (BS @ ''u003e'') (Replace (Replace a (BS @ ''u003c'') ''<'') (BS @ ''u003e'') ''>'')"
proof -
  define u where "u = Replace a (BS @ ''u003c'') ''<''"
  define v where "v = Replace u (BS @ ''u003e'') ''>''"
  have "\<not> sublist (BS @ ''u003c'') u"
    unfolding u_def by (rule no_sublist_Replace) simp_all
  moreover have "sublist (BS @ ''u003c'') u" if "sublist (BS @ ''u003c'') v"
  proof (rule sublist_Replace)
    show "sublist (BS @ ''u003c'') (Replace u (BS @ ''u003e'') [CHR ''>''])"
      using that by (simp add: v_def)
  qed simp_all
  ultimately have "\<not> sublist (BS @ ''u003c'') v" by blast
  moreover have "\<not> sublist (BS @ ''u003e'') v"
    unfolding v_def by (rule no_sublist_Replace) simp_all
  ultimately show ?thesis unfolding v_def u_def by blast
qed

text \<open>
  Claim C8: after the fixups of lines 137 to 144 the text holds neither the six
  characters \<open>\u003c\<close> nor the six characters \<open>\u003e\<close>, whatever the rendered text was,
  and each of them has been replaced by its character. The result is the text after the
  two fixups of the quotes, split at every \<open>\u003c\<close> and joined with \<open><\<close>, then split at
  every \<open>\u003e\<close> and joined with \<open>>\<close>; when the rendered text has no \<open><\<close> and no \<open>>\<close>
  of its own, putting the sequences back for the two characters gives that text again.
\<close>

theorem unescape_replaces_escapes:
  "\<not> sublist (BS @ ''u003c'') (unescape s) \<and> \<not> sublist (BS @ ''u003e'') (unescape s)
   \<and> unescape s
       = Join (Split (Join (Split
           (Replace (Replace s (''('' @ BS @ DQ) (''('' @ DQ)) (BS @ DQ @ '')'') (DQ @ '')''))
           (BS @ ''u003c'')) ''<'') (BS @ ''u003e'')) ''>''
   \<and> (CHR ''<'' \<notin> set s \<and> CHR ''>'' \<notin> set s \<longrightarrow>
        Replace (Replace (unescape s) ''>'' (BS @ ''u003e'')) ''<'' (BS @ ''u003c'')
          = Replace (Replace s (''('' @ BS @ DQ) (''('' @ DQ)) (BS @ DQ @ '')'') (DQ @ '')''))"
proof (intro conjI impI)
  define q where "q = Replace (Replace s (''('' @ BS @ DQ) (''('' @ DQ)) (BS @ DQ @ '')'') (DQ @ '')'')"
  define u where "u = Replace q (BS @ ''u003c'') ''<''"
  have v: "unescape s = Replace u (BS @ ''u003e'') ''>''"
    by (simp add: unescape_def q_def u_def)
  from escapes_replaced [of q]
  show "\<not> sublist (BS @ ''u003c'') (unescape s)" and "\<not> sublist (BS @ ''u003e'') (unescape s)"
    unfolding v u_def by blast+
  have "u = Join (Split q (BS @ ''u003c'')) ''<''"
    unfolding u_def by (rule Replace_Join_Split) simp
  moreover have "Replace u (BS @ ''u003e'') ''>'' = Join (Split u (BS @ ''u003e'')) ''>''"
    by (rule Replace_Join_Split) simp
  ultimately show "unescape s
       = Join (Split (Join (Split
           (Replace (Replace s (''('' @ BS @ DQ) (''('' @ DQ)) (BS @ DQ @ '')'') (DQ @ '')''))
           (BS @ ''u003c'')) ''<'') (BS @ ''u003e'')) ''>''"
    unfolding v q_def by simp
  assume "CHR ''<'' \<notin> set s \<and> CHR ''>'' \<notin> set s"
  then have s: "CHR ''<'' \<notin> set s" "CHR ''>'' \<notin> set s" by blast+
  have sub: "set q \<subseteq> set s \<union> set (''('' @ DQ) \<union> set (DQ @ '')'')"
    unfolding q_def using set_Replace_subset by blast
  from sub s have q: "CHR ''<'' \<notin> set q" "CHR ''>'' \<notin> set q" by auto
  have "set u \<subseteq> set q \<union> set ''<''" unfolding u_def by (rule set_Replace_subset)
  with q(2) have gt: "CHR ''>'' \<notin> set u" by auto
  have "Replace (unescape s) ''>'' (BS @ ''u003e'') = u"
    unfolding v using gt by (intro Replace_undone) simp_all
  moreover have "Replace u ''<'' (BS @ ''u003c'') = q"
    unfolding u_def using q(1) by (intro Replace_undone) simp_all
  ultimately show "Replace (Replace (unescape s) ''>'' (BS @ ''u003e'')) ''<'' (BS @ ''u003c'')
          = Replace (Replace s (''('' @ BS @ DQ) (''('' @ DQ)) (BS @ DQ @ '')'') (DQ @ '')'')"
    by (simp add: q_def)
qed

theorem unescape_replaces_escapes_witness:
  "CHR ''<'' \<notin> set (''a '' @ BS @ ''u003c b '' @ BS @ ''u003e= c'')
   \<and> CHR ''>'' \<notin> set (''a '' @ BS @ ''u003c b '' @ BS @ ''u003e= c'')
   \<and> unescape (''a '' @ BS @ ''u003c b '' @ BS @ ''u003e= c'') = ''a < b >= c''
   \<and> Replace (Replace ''a < b >= c'' ''>'' (BS @ ''u003e'')) ''<'' (BS @ ''u003c'')
        = ''a '' @ BS @ ''u003c b '' @ BS @ ''u003e= c''"
proof -
  have h: "CHR ''<'' \<notin> set (''a '' @ BS @ ''u003c b '' @ BS @ ''u003e= c'')
           \<and> CHR ''>'' \<notin> set (''a '' @ BS @ ''u003c b '' @ BS @ ''u003e= c'')"
    by simp
  have e: "unescape (''a '' @ BS @ ''u003c b '' @ BS @ ''u003e= c'') = ''a < b >= c''"
    by (simp add: unescape_def)
  have q: "Replace (Replace (''a '' @ BS @ ''u003c b '' @ BS @ ''u003e= c'')
              (''('' @ BS @ DQ) (''('' @ DQ)) (BS @ DQ @ '')'') (DQ @ '')'')
           = ''a '' @ BS @ ''u003c b '' @ BS @ ''u003e= c''"
    by simp
  from unescape_replaces_escapes [of "''a '' @ BS @ ''u003c b '' @ BS @ ''u003e= c''"] h
  have "Replace (Replace (unescape (''a '' @ BS @ ''u003c b '' @ BS @ ''u003e= c''))
            ''>'' (BS @ ''u003e'')) ''<'' (BS @ ''u003c'')
        = Replace (Replace (''a '' @ BS @ ''u003c b '' @ BS @ ''u003e= c'')
              (''('' @ BS @ DQ) (''('' @ DQ)) (BS @ DQ @ '')'') (DQ @ '')'')"
    by blast
  with h e q show ?thesis by simp
qed

text \<open>
  So the bytes that \<open>hclPrint\<close> returns hold neither sequence, when the formatter adds
  none to a text that has none.
\<close>

lemma hclPrint_no_escapes:
  assumes "\<And>s f. Format P s = Inr f \<Longrightarrow> \<not> sublist e s \<Longrightarrow> \<not> sublist e f"
    and "e = BS @ ''u003c'' \<or> e = BS @ ''u003e''"
    and "hclPrint J P node out = Inr (Inr formatted, out')"
  shows "\<not> sublist e formatted"
proof -
  from assms(3) obtain node' s where "Fprint P node' = Inr s"
    and f: "Format P (unescape (remove_extra_whitespace s)) = Inr formatted"
    by (auto simp: hclPrint_def Let_def split: sum.splits prod.splits)
  have "\<not> sublist e (unescape (remove_extra_whitespace s))"
    using assms(2) escapes_replaced unfolding unescape_def Let_def by blast
  with assms(1) [OF f] show ?thesis .
qed





end
